theory Spec2Isabelle
  imports Main
begin

section \<open>The git cache client of pkg/git/client.go\<close>

text \<open>
  The client shells out to the git binary, asks the operating system about files and
  directories, sleeps and logs. None of that is code of the package, so the model takes
  the outside world as a parameter: a record \<open>sys\<close> of operations over a state \<open>'e\<close> of
  everything outside the process (the disk, the network, the remote hosts). What the
  process itself did is written to a trace of events, in order.
\<close>

subsection \<open>Go values\<close>

text \<open>
  A Go \<open>error\<close> is \<open>error option\<close>, \<open>None\<close> being \<open>nil\<close>. \<open>Errorf f e\<close> is the error
  \<open>fmt.Errorf(f, e)\<close> builds from the format \<open>f\<close> and the error \<open>e\<close>; formatted text is
  kept as the format with its arguments. A \<open>[]byte\<close> is a \<open>string\<close>, the nil slice
  being the empty one (the code only ever converts it with \<open>string(out)\<close>).
\<close>

datatype error =
    ErrNotExist
  | ErrExist
  | ErrCanceled
  | ErrOther string
  | Errorf string error

fun IsNotExist :: "error option \<Rightarrow> bool" where
  "IsNotExist (Some ErrNotExist) = True"
| "IsNotExist _ = False"

fun IsExist :: "error option \<Rightarrow> bool" where
  "IsExist (Some ErrExist) = True"
| "IsExist _ = False"

datatype go_context = Context nat

datatype level = InfoLevel | WarnLevel | ErrorLevel

datatype fmtarg = ArgInt int | ArgStr string

datatype message = Msg string | Sprintf string "fmtarg list"

datatype field = zap_String string string | zap_Error error

type_synonym logger = "field list"

text \<open>\<open>time.Second\<close>, a \<open>time.Duration\<close> in nanoseconds.\<close>

definition Second :: int where
  "Second = 1000000000"

subsection \<open>The outside world and the trace\<close>

datatype event =
    EvExec string string "string list"
  | EvStat string
  | EvMkdirAll string
  | EvRemoveAll string
  | EvSetUser string string string
  | EvSleep int
  | EvLog level message "field list"

record 'e world =
  ext :: 'e
  trace :: "event list"

text \<open>
  \<open>sys_exec ctx path dir args\<close> is \<open>exec.CommandContext(ctx, path, args...)\<close> run in
  \<open>dir\<close> to its \<open>CombinedOutput()\<close>; \<open>sys_Stat\<close>, \<open>sys_MkdirAll\<close> and \<open>sys_RemoveAll\<close> are
  the calls of package \<open>os\<close>; \<open>sys_Sleep\<close> is what happens outside while the process
  sleeps; \<open>sys_SetUser ctx dir name email\<close> is the identity configuration of the working
  copy at \<open>dir\<close>.
\<close>

record 'e sys =
  sys_exec :: "go_context \<Rightarrow> string \<Rightarrow> string \<Rightarrow> string list \<Rightarrow> 'e \<Rightarrow> (string \<times> error option) \<times> 'e"
  sys_Stat :: "string \<Rightarrow> 'e \<Rightarrow> error option"
  sys_MkdirAll :: "string \<Rightarrow> 'e \<Rightarrow> error option \<times> 'e"
  sys_RemoveAll :: "string \<Rightarrow> 'e \<Rightarrow> error option \<times> 'e"
  sys_Sleep :: "int \<Rightarrow> 'e \<Rightarrow> 'e"
  sys_SetUser :: "go_context \<Rightarrow> string \<Rightarrow> string \<Rightarrow> string \<Rightarrow> 'e \<Rightarrow> error option \<times> 'e"

definition emit :: "event \<Rightarrow> 'e world \<Rightarrow> 'e world" where
  "emit ev w = w\<lparr>trace := trace w @ [ev]\<rparr>"

definition logAt :: "level \<Rightarrow> logger \<Rightarrow> message \<Rightarrow> field list \<Rightarrow> 'e world \<Rightarrow> 'e world" where
  "logAt lvl lg msg fs w = emit (EvLog lvl msg (lg @ fs)) w"

definition time_Sleep :: "'e sys \<Rightarrow> int \<Rightarrow> 'e world \<Rightarrow> 'e world" where
  "time_Sleep sys d w = emit (EvSleep d) (w\<lparr>ext := sys_Sleep sys d (ext w)\<rparr>)"

definition os_Stat :: "'e sys \<Rightarrow> string \<Rightarrow> 'e world \<Rightarrow> error option \<times> 'e world" where
  "os_Stat sys name w = (sys_Stat sys name (ext w), emit (EvStat name) w)"

definition os_MkdirAll :: "'e sys \<Rightarrow> string \<Rightarrow> 'e world \<Rightarrow> error option \<times> 'e world" where
  "os_MkdirAll sys name w =
     (case sys_MkdirAll sys name (ext w) of
        (err, e') \<Rightarrow> (err, emit (EvMkdirAll name) (w\<lparr>ext := e'\<rparr>)))"

definition os_RemoveAll :: "'e sys \<Rightarrow> string \<Rightarrow> 'e world \<Rightarrow> error option \<times> 'e world" where
  "os_RemoveAll sys name w =
     (case sys_RemoveAll sys name (ext w) of
        (err, e') \<Rightarrow> (err, emit (EvRemoveAll name) (w\<lparr>ext := e'\<rparr>)))"

subsection \<open>The client\<close>

text \<open>
  The struct \<open>client\<close>. A \<open>sync.Mutex\<close> is a \<open>bool\<close>, \<open>True\<close> when locked; \<open>repoLocks\<close> maps
  a repository name to its mutex (each entry is a mutex of its own, allocated by
  \<open>lockRepo\<close> and never shared between keys).
\<close>

record client =
  username :: string
  email :: string
  gitPath :: string
  cacheDir :: string
  mu :: bool
  repoLocks :: "string \<rightharpoonup> bool"
  logger :: logger

text \<open>
  A call of the client ends in one of three ways: it returns; it blocks for ever on a
  mutex that nobody will unlock (the model runs one call at a time); or the Go runtime
  stops the program (an index out of range, a nil dereference, unlocking a mutex that
  is not locked).
\<close>

datatype 'a outcome = Returns 'a | Blocks | Panics

definition runGitCommand ::
  "'e sys \<Rightarrow> client \<Rightarrow> go_context \<Rightarrow> string \<Rightarrow> string list \<Rightarrow> 'e world \<Rightarrow> (string \<times> error option) \<times> 'e world" where
  "runGitCommand sys c ctx dir args w =
     (case sys_exec sys ctx (gitPath c) dir args (ext w) of
        (r, e') \<Rightarrow> (r, emit (EvExec (gitPath c) dir args) (w\<lparr>ext := e'\<rparr>)))"

subsection \<open>retryCommand\<close>

text \<open>
  The two statements after a failed attempt number \<open>i\<close> (counted from 0): the warning
  and the sleep.
\<close>

definition afterFailure :: "'e sys \<Rightarrow> int \<Rightarrow> logger \<Rightarrow> int \<Rightarrow> 'e world \<Rightarrow> 'e world" where
  "afterFailure sys interval lg i w =
     time_Sleep sys interval
       (logAt WarnLevel lg
          (Sprintf ''command was failed %d times, sleep %d seconds before retrying command''
             [ArgInt (i + 1), ArgInt interval]) [] w)"

text \<open>
  The loop \<open>for i := 0; i < retries; i++\<close>, entered at \<open>i\<close> with the named results
  \<open>(out, err)\<close> holding \<open>r\<close>.
\<close>

function retryLoop ::
  "'e sys \<Rightarrow> int \<Rightarrow> int \<Rightarrow> logger \<Rightarrow> ('e world \<Rightarrow> (string \<times> error option) \<times> 'e world) \<Rightarrow>
   int \<Rightarrow> string \<times> error option \<Rightarrow> 'e world \<Rightarrow> (string \<times> error option) \<times> 'e world" where
  "retryLoop sys retries interval lg commander i r w =
     (if i < retries then
        (case commander w of
           ((out, None), w1) \<Rightarrow> ((out, None), w1)
         | ((out, Some err), w1) \<Rightarrow>
             retryLoop sys retries interval lg commander (i + 1) (out, Some err)
               (afterFailure sys interval lg i w1))
      else (r, w))"
  by pat_completeness auto
termination
  by (relation "measure (\<lambda>(sys, retries, interval, lg, commander, i, r, w). nat (retries - i))") auto

declare retryLoop.simps [simp del]

definition retryCommand ::
  "'e sys \<Rightarrow> int \<Rightarrow> int \<Rightarrow> logger \<Rightarrow> ('e world \<Rightarrow> (string \<times> error option) \<times> 'e world) \<Rightarrow>
   'e world \<Rightarrow> (string \<times> error option) \<times> 'e world" where
  "retryCommand sys retries interval lg commander w =
     retryLoop sys retries interval lg commander 0 ([], None) w"

subsection \<open>GetLatestRemoteHashForBranch\<close>

text \<open>
  \<open>strings.Split(s, sep)\<close> for a separator of one byte: the piece before the first
  separator, then the pieces of what follows it.
\<close>

function Split :: "string \<Rightarrow> char \<Rightarrow> string list" where
  "Split s sep =
     takeWhile (\<lambda>x. x \<noteq> sep) s #
       (case dropWhile (\<lambda>x. x \<noteq> sep) s of
          [] \<Rightarrow> []
        | _ # rest \<Rightarrow> Split rest sep)"
  by pat_completeness auto
termination
proof (relation "measure (\<lambda>(s, sep). length s)")
  show "wf (measure (\<lambda>(s, sep). length s))" by simp
next
  fix s :: string and sep x rest
  assume "dropWhile (\<lambda>x. x \<noteq> sep) s = x # rest"
  moreover have "length (dropWhile (\<lambda>x. x \<noteq> sep) s) \<le> length s"
    by (rule length_dropWhile_le)
  ultimately show "((rest, sep), (s, sep)) \<in> measure (\<lambda>(s, sep). length s)" by simp
qed

declare Split.simps [simp del]

definition tab :: char where
  "tab = CHR 0x09"

definition GetLatestRemoteHashForBranch ::
  "'e sys \<Rightarrow> client \<Rightarrow> go_context \<Rightarrow> string \<Rightarrow> string \<Rightarrow> 'e world \<Rightarrow>
   ((string \<times> error option) \<times> 'e world) outcome" where
  "GetLatestRemoteHashForBranch sys c ctx remote branch w =
     (let ref = ''refs/heads/'' @ branch in
      case retryCommand sys 3 Second (logger c)
             (runGitCommand sys c ctx [] [''ls-remote'', ref]) w of
        ((out, Some err), w1) \<Rightarrow>
          Returns (([], Some err),
            logAt ErrorLevel (logger c) (Msg ''failed to get latest remote hash for branch'')
              [zap_String ''remote'' remote, zap_String ''branch'' branch,
               zap_String ''out'' out, zap_Error err] w1)
      | ((out, None), w1) \<Rightarrow>
          (case Split out tab of
             [] \<Rightarrow> Panics
           | p # ps \<Rightarrow> Returns ((p, None), w1)))"

subsection \<open>Paths\<close>

text \<open>
  \<open>filepath.Clean\<close>, \<open>filepath.Join\<close> and \<open>filepath.Dir\<close> of the Go library on Unix
  (the separator is \<open>/\<close>, there are no volume names), written over the elements of the
  path. \<open>cleanElems\<close> walks the elements with the elements kept so far: an empty element
  and \<open>.\<close> are dropped; \<open>..\<close> removes the element before it, is dropped at the root, and
  is kept where a relative path has nothing left to remove.
\<close>

definition slash :: char where
  "slash = CHR ''/''"

fun strings_Join :: "string list \<Rightarrow> string \<Rightarrow> string" where
  "strings_Join [] sep = []"
| "strings_Join [e] sep = e"
| "strings_Join (e # es) sep = e @ sep @ strings_Join es sep"

fun cleanElems :: "bool \<Rightarrow> string list \<Rightarrow> string list \<Rightarrow> string list" where
  "cleanElems rooted [] kept = kept"
| "cleanElems rooted (e # es) kept =
     (if e = [] \<or> e = ''.'' then cleanElems rooted es kept
      else if e = ''..'' then
        (if kept \<noteq> [] \<and> last kept \<noteq> ''..'' then cleanElems rooted es (butlast kept)
         else if rooted then cleanElems rooted es kept
         else cleanElems rooted es (kept @ [''..'']))
      else cleanElems rooted es (kept @ [e]))"

definition filepath_Clean :: "string \<Rightarrow> string" where
  "filepath_Clean path =
     (if path = [] then ''.''
      else
        let rooted = (hd path = slash);
            out = (if rooted then ''/'' else []) @
                  strings_Join (cleanElems rooted (Split path slash) []) ''/''
        in if out = [] then ''.'' else out)"

fun filepath_Join :: "string list \<Rightarrow> string" where
  "filepath_Join [] = []"
| "filepath_Join (e # es) =
     (if e = [] then filepath_Join es else filepath_Clean (strings_Join (e # es) ''/''))"

definition filepath_Dir :: "string \<Rightarrow> string" where
  "filepath_Dir path = filepath_Clean (rev (dropWhile (\<lambda>x. x \<noteq> slash) (rev path)))"

text \<open>A path is within a directory when it is the directory or lies below it.\<close>

definition within :: "string \<Rightarrow> string \<Rightarrow> bool" where
  "within dir path = (path = dir \<or> take (length dir + 1) path = dir @ ''/'')"

subsection \<open>The per-repository locks\<close>

definition lockRepo :: "client \<Rightarrow> string \<Rightarrow> client outcome" where
  "lockRepo c repoFullName =
     (if mu c then Blocks
      else
        let c1 = c\<lparr>mu := True\<rparr>;
            c2 = (if repoLocks c1 repoFullName = None
                  then c1\<lparr>repoLocks := (repoLocks c1)(repoFullName \<mapsto> False)\<rparr>
                  else c1);
            m = repoLocks c2 repoFullName;
            c3 = c2\<lparr>mu := False\<rparr>
        in case m of
             None \<Rightarrow> Panics
           | Some True \<Rightarrow> Blocks
           | Some False \<Rightarrow> Returns (c3\<lparr>repoLocks := (repoLocks c3)(repoFullName \<mapsto> True)\<rparr>))"

definition unlockRepo :: "client \<Rightarrow> string \<Rightarrow> client outcome" where
  "unlockRepo c repoFullName =
     (if mu c then Blocks
      else
        case repoLocks c repoFullName of
          None \<Rightarrow> Panics
        | Some False \<Rightarrow> Panics
        | Some True \<Rightarrow> Returns (c\<lparr>repoLocks := (repoLocks c)(repoFullName \<mapsto> False)\<rparr>))"

subsection \<open>Clone and Clean\<close>

text \<open>
  Modelled from the spec: the working-copy handle of \<open>NewRepo\<close> and its \<open>SetUser\<close> are
  code of the package that is not in the sources. The handle is bound to the
  repository's full name, the destination path, the binary path and the remote
  locator; \<open>SetUser\<close> configures the identity on the working copy, which is one operation
  of the outside world here.
\<close>

record repo =
  repo_fullName :: string
  repo_dir :: string
  repo_gitPath :: string
  repo_remote :: string
  repo_logger :: logger

definition NewRepo :: "string \<Rightarrow> string \<Rightarrow> string \<Rightarrow> string \<Rightarrow> logger \<Rightarrow> repo" where
  "NewRepo fullName dir gp remote lg =
     \<lparr>repo_fullName = fullName, repo_dir = dir, repo_gitPath = gp, repo_remote = remote,
      repo_logger = lg\<rparr>"

definition SetUser ::
  "'e sys \<Rightarrow> repo \<Rightarrow> go_context \<Rightarrow> string \<Rightarrow> string \<Rightarrow> 'e world \<Rightarrow> error option \<times> 'e world" where
  "SetUser sys r ctx name mail w =
     (case sys_SetUser sys ctx (repo_dir r) name mail (ext w) of
        (err, e') \<Rightarrow> (err, emit (EvSetUser (repo_dir r) name mail) (w\<lparr>ext := e'\<rparr>)))"

definition repoCachePath :: "client \<Rightarrow> string \<Rightarrow> string" where
  "repoCachePath c repoFullName = filepath_Join [cacheDir c, repoFullName] @ ''.git''"

definition remoteOf :: "string \<Rightarrow> string \<Rightarrow> string" where
  "remoteOf base repoFullName = base @ ''/'' @ repoFullName"

definition cloneLogger :: "client \<Rightarrow> string \<Rightarrow> string \<Rightarrow> logger" where
  "cloneLogger c base repoFullName =
     logger c @ [zap_String ''base'' base, zap_String ''repo'' repoFullName,
                 zap_String ''repo-cache-path'' (repoCachePath c repoFullName)]"

text \<open>
  Lines 105 to 139 of \<open>Clone\<close>: the mirror is cloned when \<open>os.Stat\<close> says it does not
  exist and fetched otherwise. The result is the error \<open>Clone\<close> returns from there, or
  \<open>None\<close> when it goes on.
\<close>

definition Clone_updateMirror ::
  "'e sys \<Rightarrow> client \<Rightarrow> go_context \<Rightarrow> string \<Rightarrow> string \<Rightarrow> 'e world \<Rightarrow> error option \<times> 'e world" where
  "Clone_updateMirror sys c ctx base repoFullName w =
     (let remote = remoteOf base repoFullName;
          path = repoCachePath c repoFullName;
          lg = cloneLogger c base repoFullName
      in case os_Stat sys path w of
        (err, w0) \<Rightarrow>
          if err \<noteq> None \<and> \<not> IsNotExist err then (err, w0)
          else if IsNotExist err then
            (case os_MkdirAll sys (filepath_Dir path)
                    (logAt InfoLevel lg
                       (Sprintf ''cloning %s for the first time'' [ArgStr repoFullName]) [] w0) of
               (merr, w2) \<Rightarrow>
                 if merr \<noteq> None \<and> \<not> IsExist merr then (merr, w2)
                 else
                   (case retryCommand sys 3 Second lg
                           (runGitCommand sys c ctx [] [''clone'', ''--mirror'', remote, path]) w2 of
                      ((out, Some e), w3) \<Rightarrow>
                        (Some (Errorf ''failed to clone from remote: %v'' e),
                         logAt ErrorLevel lg (Msg ''failed to clone from remote'')
                           [zap_String ''out'' out, zap_Error e] w3)
                    | ((out, None), w3) \<Rightarrow> (None, w3)))
          else
            (case retryCommand sys 3 Second (logger c)
                    (runGitCommand sys c ctx path [''fetch''])
                    (logAt InfoLevel (logger c)
                       (Sprintf ''fetching %s to update the cache'' [ArgStr repoFullName]) [] w0) of
               ((out, Some e), w2) \<Rightarrow>
                 (Some (Errorf ''failed to fetch: %v'' e),
                  logAt ErrorLevel lg (Msg ''failed to fetch from remote'')
                    [zap_String ''out'' out, zap_Error e] w2)
             | ((out, None), w2) \<Rightarrow> (None, w2)))"

text \<open>Lines 141 to 162 of \<open>Clone\<close>: the working copy is cloned from the mirror.\<close>

definition Clone_checkout ::
  "'e sys \<Rightarrow> client \<Rightarrow> go_context \<Rightarrow> string \<Rightarrow> string \<Rightarrow> string \<Rightarrow> 'e world \<Rightarrow>
   (repo option \<times> error option) \<times> 'e world" where
  "Clone_checkout sys c ctx base repoFullName destination w =
     (let remote = remoteOf base repoFullName;
          path = repoCachePath c repoFullName;
          lg = cloneLogger c base repoFullName
      in case os_MkdirAll sys destination w of
        (err, w1) \<Rightarrow>
          if err \<noteq> None then ((None, err), w1)
          else
            (case runGitCommand sys c ctx [] [''clone'', path, destination] w1 of
               ((out, Some e), w2) \<Rightarrow>
                 ((None, Some (Errorf ''failed to clone from local: %v'' e)),
                  logAt ErrorLevel lg (Msg ''failed to clone from local'')
                    [zap_String ''out'' out, zap_String ''repo-path'' destination, zap_Error e] w2)
             | ((out, None), w2) \<Rightarrow>
                 (let r = NewRepo repoFullName destination (gitPath c) remote (logger c) in
                  if username c \<noteq> [] \<or> email c \<noteq> [] then
                    (case SetUser sys r ctx (username c) (email c) w2 of
                       (Some e, w3) \<Rightarrow> ((None, Some (Errorf ''failed to set user: %v'' e)), w3)
                     | (None, w3) \<Rightarrow> ((Some r, None), w3))
                  else ((Some r, None), w2))))"

text \<open>The two parts, one after the other: lines 105 to 162.\<close>

definition Clone_body ::
  "'e sys \<Rightarrow> client \<Rightarrow> go_context \<Rightarrow> string \<Rightarrow> string \<Rightarrow> string \<Rightarrow> 'e world \<Rightarrow>
   (repo option \<times> error option) \<times> 'e world" where
  "Clone_body sys c ctx base repoFullName destination w =
     (case Clone_updateMirror sys c ctx base repoFullName w of
        (Some err, w1) \<Rightarrow> ((None, Some err), w1)
      | (None, w1) \<Rightarrow> Clone_checkout sys c ctx base repoFullName destination w1)"

text \<open>
  \<open>Clone\<close>: the lock is taken, the body runs, and the deferred \<open>unlockRepo\<close> runs on
  every return. The client comes back with its mutexes as the call left them.
\<close>

definition Clone ::
  "'e sys \<Rightarrow> client \<Rightarrow> go_context \<Rightarrow> string \<Rightarrow> string \<Rightarrow> string \<Rightarrow> 'e world \<Rightarrow>
   ((repo option \<times> error option) \<times> client \<times> 'e world) outcome" where
  "Clone sys c ctx base repoFullName destination w =
     (case lockRepo c repoFullName of
        Blocks \<Rightarrow> Blocks
      | Panics \<Rightarrow> Panics
      | Returns c1 \<Rightarrow>
          (case Clone_body sys c1 ctx base repoFullName destination w of
             (r, w') \<Rightarrow>
               (case unlockRepo c1 repoFullName of
                  Blocks \<Rightarrow> Blocks
                | Panics \<Rightarrow> Panics
                | Returns c2 \<Rightarrow> Returns (r, c2, w'))))"

definition Clean :: "'e sys \<Rightarrow> client \<Rightarrow> 'e world \<Rightarrow> error option \<times> 'e world" where
  "Clean sys c w = os_RemoveAll sys (cacheDir c) w"

subsection \<open>A simulated outside world\<close>

text \<open>
  One instance of \<open>sys\<close>, to run the client on: the disk is the list of the paths that
  exist, and the git binary answers from a list of prepared replies (an empty output
  and no error once the list is used up). A successful clone creates its target; the
  other calls of the operating system succeed.
\<close>

record sim =
  paths :: "string list"
  replies :: "(string \<times> error option) list"

fun created :: "string list \<Rightarrow> string list" where
  "created [a, b, r, p] = (if a = ''clone'' \<and> b = ''--mirror'' then [p] else [])"
| "created [a, s, d] = (if a = ''clone'' then [d] else [])"
| "created args = []"

definition sim_exec ::
  "go_context \<Rightarrow> string \<Rightarrow> string \<Rightarrow> string list \<Rightarrow> sim \<Rightarrow> (string \<times> error option) \<times> sim" where
  "sim_exec ctx path dir args e =
     (case replies e of
        [] \<Rightarrow> (([], None), e\<lparr>paths := created args @ paths e\<rparr>)
      | (out, None) # rs \<Rightarrow> ((out, None), e\<lparr>paths := created args @ paths e, replies := rs\<rparr>)
      | (out, Some err) # rs \<Rightarrow> ((out, Some err), e\<lparr>replies := rs\<rparr>))"

definition sim_Stat :: "string \<Rightarrow> sim \<Rightarrow> error option" where
  "sim_Stat name e = (if name \<in> set (paths e) then None else Some ErrNotExist)"

definition sim_MkdirAll :: "string \<Rightarrow> sim \<Rightarrow> error option \<times> sim" where
  "sim_MkdirAll name e = (None, e\<lparr>paths := name # paths e\<rparr>)"

definition sim_RemoveAll :: "string \<Rightarrow> sim \<Rightarrow> error option \<times> sim" where
  "sim_RemoveAll name e = (None, e\<lparr>paths := filter (\<lambda>p. \<not> within name p) (paths e)\<rparr>)"

definition simSys :: "sim sys" where
  "simSys =
     \<lparr>sys_exec = sim_exec, sys_Stat = sim_Stat, sys_MkdirAll = sim_MkdirAll,
      sys_RemoveAll = sim_RemoveAll, sys_Sleep = (\<lambda>d e. e),
      sys_SetUser = (\<lambda>ctx dir name mail e. (None, e))\<rparr>"

definition simClient :: client where
  "simClient =
     \<lparr>username = [], email = [], gitPath = ''/usr/bin/git'', cacheDir = ''/tmp/gitcache'',
      mu = False, repoLocks = Map.empty, logger = []\<rparr>"

definition simWorld :: "string list \<Rightarrow> (string \<times> error option) list \<Rightarrow> sim world" where
  "simWorld ps rs = \<lparr>ext = \<lparr>paths = ps, replies = rs\<rparr>, trace = []\<rparr>"

subsection \<open>Reading outcomes and traces\<close>

text \<open>What a call returned, without the world it left.\<close>

definition result_of :: "('a \<times> 'b) outcome \<Rightarrow> 'a outcome" where
  "result_of x = (case x of Returns (r, w) \<Rightarrow> Returns r | Blocks \<Rightarrow> Blocks | Panics \<Rightarrow> Panics)"

definition newline :: char where
  "newline = CHR 0x0A"

fun is_log :: "event \<Rightarrow> bool" where
  "is_log (EvLog lvl msg fs) = True"
| "is_log ev = False"

fun is_warning :: "event \<Rightarrow> bool" where
  "is_warning (EvLog lvl msg fs) = (lvl = WarnLevel)"
| "is_warning ev = False"

fun is_sleep :: "event \<Rightarrow> bool" where
  "is_sleep (EvSleep d) = True"
| "is_sleep ev = False"

fun is_exec :: "event \<Rightarrow> bool" where
  "is_exec (EvExec p d args) = True"
| "is_exec ev = False"

text \<open>The kinds of git command the client runs, read off the arguments.\<close>

fun is_mirror_clone :: "event \<Rightarrow> bool" where
  "is_mirror_clone (EvExec p d [a, b, r, t]) = (a = ''clone'' \<and> b = ''--mirror'')"
| "is_mirror_clone ev = False"

fun is_fetch :: "event \<Rightarrow> bool" where
  "is_fetch (EvExec p d [a]) = (a = ''fetch'')"
| "is_fetch ev = False"

fun is_local_clone :: "event \<Rightarrow> bool" where
  "is_local_clone (EvExec p d [a, s, t]) = (a = ''clone'')"
| "is_local_clone ev = False"

fun is_remove :: "event \<Rightarrow> bool" where
  "is_remove (EvRemoveAll p) = True"
| "is_remove ev = False"

text \<open>The events a call added to the trace of the world it started in.\<close>

definition added :: "'e world \<Rightarrow> 'e world \<Rightarrow> event list" where
  "added w w' = drop (length (trace w)) (trace w')"

text \<open>
  The world in which attempt number \<open>i + k\<close> of a retried command starts, when the
  attempts from number \<open>i\<close> on (counted from 0, the first of them starting in \<open>w\<close>) have
  failed: each failed attempt is followed by its warning and its sleep.
\<close>

primrec attemptFrom ::
  "'e sys \<Rightarrow> int \<Rightarrow> logger \<Rightarrow> ('e world \<Rightarrow> (string \<times> error option) \<times> 'e world) \<Rightarrow>
   int \<Rightarrow> 'e world \<Rightarrow> nat \<Rightarrow> 'e world" where
  "attemptFrom sys interval lg commander i w 0 = w"
| "attemptFrom sys interval lg commander i w (Suc k) =
     afterFailure sys interval lg (i + int k)
       (snd (commander (attemptFrom sys interval lg commander i w k)))"

definition attemptStart ::
  "'e sys \<Rightarrow> int \<Rightarrow> logger \<Rightarrow> ('e world \<Rightarrow> (string \<times> error option) \<times> 'e world) \<Rightarrow>
   'e world \<Rightarrow> nat \<Rightarrow> 'e world" where
  "attemptStart sys interval lg commander w k = attemptFrom sys interval lg commander 0 w k"

subsection \<open>Plain paths\<close>

text \<open>
  A path element is plain when it is a name: not empty, not \<open>.\<close>, not \<open>..\<close>, without
  a separator. A path is plain when each of its elements is.
\<close>

definition plain :: "string \<Rightarrow> bool" where
  "plain e = (e \<noteq> [] \<and> e \<noteq> ''.'' \<and> e \<noteq> ''..'' \<and> slash \<notin> set e)"

definition plainPath :: "string \<Rightarrow> bool" where
  "plainPath s = list_all plain (Split s slash)"

text \<open>The mutexes that \<open>lockRepo\<close> waits for are free.\<close>

definition unlocked :: "client \<Rightarrow> string \<Rightarrow> bool" where
  "unlocked c repoFullName = (\<not> mu c \<and> repoLocks c repoFullName \<noteq> Some True)"

text \<open>
  The events of a retried git command: the warning after failed attempt number \<open>i\<close>
  (counted from 0), and the events of \<open>k\<close> failed attempts of the command \<open>ev\<close>.
\<close>

definition retryWarning :: "int \<Rightarrow> logger \<Rightarrow> int \<Rightarrow> event" where
  "retryWarning interval lg i =
     EvLog WarnLevel
       (Sprintf ''command was failed %d times, sleep %d seconds before retrying command''
          [ArgInt (i + 1), ArgInt interval]) lg"

definition failedAttempts :: "event \<Rightarrow> int \<Rightarrow> logger \<Rightarrow> nat \<Rightarrow> event list" where
  "failedAttempts ev interval lg k =
     concat (map (\<lambda>j. [ev, retryWarning interval lg (int j), EvSleep interval]) [0..<k])"

text \<open>The three git commands of \<open>Clone\<close>, as events.\<close>

definition mirrorCloneCmd :: "client \<Rightarrow> string \<Rightarrow> string \<Rightarrow> event" where
  "mirrorCloneCmd c base repoFullName =
     EvExec (gitPath c) []
       [''clone'', ''--mirror'', remoteOf base repoFullName, repoCachePath c repoFullName]"

definition fetchCmd :: "client \<Rightarrow> string \<Rightarrow> event" where
  "fetchCmd c repoFullName = EvExec (gitPath c) (repoCachePath c repoFullName) [''fetch'']"

definition localCloneCmd :: "client \<Rightarrow> string \<Rightarrow> string \<Rightarrow> event" where
  "localCloneCmd c repoFullName destination =
     EvExec (gitPath c) [] [''clone'', repoCachePath c repoFullName, destination]"

text \<open>A fetch in the mirror of \<open>org/repo\<close>, and a world in which the context is cancelled.\<close>

definition simFetch :: "sim world \<Rightarrow> (string \<times> error option) \<times> sim world" where
  "simFetch = runGitCommand simSys simClient (Context 0) ''/tmp/gitcache/org/repo.git'' [''fetch'']"

definition cancelledWorld :: "sim world" where
  "cancelledWorld = simWorld [''/tmp/gitcache/org/repo.git'']
     [(''signal: killed'', Some ErrCanceled), ([], Some ErrCanceled), ([], Some ErrCanceled)]"

text \<open>
  Worlds for \<open>Clone\<close> of \<open>org/repo\<close>: nothing cached; the mirror cached; nothing cached
  and a first mirror clone that fails; and an operating system that cannot create
  directories.
\<close>

definition freshWorld :: "sim world" where
  "freshWorld = simWorld [] []"

definition cachedWorld :: "sim world" where
  "cachedWorld = simWorld [''/tmp/gitcache/org/repo.git''] []"

definition flakyWorld :: "sim world" where
  "flakyWorld = simWorld [] [(''reset'', Some (ErrOther ''exit status 128''))]"

definition readOnlySys :: "sim sys" where
  "readOnlySys = simSys\<lparr>sys_MkdirAll := (\<lambda>name e. (Some (ErrOther ''permission denied''), e))\<rparr>"

text \<open>The mirror cached and a remote that cannot be reached; a local clone that fails.\<close>

definition staleWorld :: "sim world" where
  "staleWorld = simWorld [''/tmp/gitcache/org/repo.git'']
     [(''timeout'', Some (ErrOther ''exit status 128'')),
      (''timeout'', Some (ErrOther ''exit status 128'')),
      (''timeout'', Some (ErrOther ''exit status 128''))]"

definition fullDiskWorld :: "sim world" where
  "fullDiskWorld = simWorld [''/tmp/gitcache/org/repo.git'']
     [(''ok'', None), (''No space left on device'', Some (ErrOther ''exit status 128''))]"

text \<open>A client with an identity, and a git that cannot configure it.\<close>

definition botClient :: client where
  "botClient = simClient\<lparr>username := ''bot''\<rparr>"

definition noConfigSys :: "sim sys" where
  "noConfigSys =
     simSys\<lparr>sys_SetUser := (\<lambda>ctx dir name mail e. (Some (ErrOther ''exit status 255''), e))\<rparr>"

subsection \<open>Calls of \<open>Clone\<close> running side by side\<close>

text \<open>
  The definitions above run one call at a time. Here several goroutines call \<open>Clone\<close> on
  one client, and a schedule says which of them runs its next statement. What they share
  is the registry of the client: \<open>c.mu\<close>, \<open>c.repoLocks\<close>, and the mutexes that the values of
  \<open>c.repoLocks\<close> point to. A mutex is an address, \<open>locked\<close> says which addresses are locked,
  and \<open>&sync.Mutex{}\<close> takes the next free address, \<open>allocated\<close>, with the mutex unlocked.

  A goroutine is at a statement of \<open>lockRepo\<close> or \<open>unlockRepo\<close>, named by its line in
  \<open>client.go\<close>: \<open>L171\<close> \<open>c.mu.Lock()\<close>, \<open>L172\<close> the test \<open>_, ok := c.repoLocks[repoFullName]; !ok\<close>,
  \<open>L173\<close> the store \<open>c.repoLocks[repoFullName] = &sync.Mutex{}\<close>, \<open>L175\<close>
  \<open>mu := c.repoLocks[repoFullName]\<close>, \<open>L176\<close> \<open>c.mu.Unlock()\<close>, \<open>L178\<close> \<open>mu.Lock()\<close>, \<open>L182\<close>
  \<open>c.mu.Lock()\<close>, \<open>L183\<close> \<open>c.repoLocks[repoFullName].Unlock()\<close>, \<open>L184\<close> \<open>c.mu.Unlock()\<close>. It is
  \<open>InBody\<close> between the return of \<open>lockRepo\<close> and the deferred \<open>unlockRepo\<close>, lines 104 to
  162 of \<open>Clone\<close>, and \<open>Idle\<close> outside \<open>Clone\<close>. It carries the \<open>repoFullName\<close> of its call,
  \<open>key\<close>, and the local variable \<open>mu\<close> of \<open>lockRepo\<close>, \<open>local_mu\<close>.
\<close>

datatype pc = Idle | L171 | L172 | L173 | L175 | L176 | L178 | InBody | L182 | L183 | L184

record goroutine =
  line :: pc
  key :: string
  local_mu :: "nat option"

record registry =
  reg_mu :: bool
  reg_locks :: "string \<rightharpoonup> nat"
  locked :: "nat \<Rightarrow> bool"
  allocated :: nat

record conf =
  reg :: registry
  gos :: "nat \<Rightarrow> goroutine"

text \<open>
  \<open>fire t k C\<close> is goroutine \<open>t\<close> running the statement it is at; an idle goroutine calls
  \<open>Clone\<close> for the name \<open>k\<close> (elsewhere \<open>k\<close> is not read). \<open>Lock\<close> on a locked mutex does not
  return, \<open>Unlock\<close> on an unlocked one is a fatal error of the Go runtime, and so is
  \<open>Lock\<close> or \<open>Unlock\<close> through a nil pointer. The test of line 172 and the store of line
  173 are two steps, and neither looks at \<open>c.mu\<close>: both read and write the map as it is
  when they run, and the store puts a new mutex under the name whatever is there. The
  body of \<open>Clone\<close> does not touch the registry, so it is one step here.
\<close>

definition goto :: "nat \<Rightarrow> pc \<Rightarrow> conf \<Rightarrow> conf" where
  "goto t p C = C\<lparr>gos := (gos C)(t := (gos C t)\<lparr>line := p\<rparr>)\<rparr>"

definition fire :: "nat \<Rightarrow> string \<Rightarrow> conf \<Rightarrow> conf outcome" where
  "fire t k C =
     (let g = gos C t; R = reg C in
      case line g of
        Idle \<Rightarrow> Returns (C\<lparr>gos := (gos C)(t := \<lparr>line = L171, key = k, local_mu = None\<rparr>)\<rparr>)
      | L171 \<Rightarrow>
          if reg_mu R then Blocks
          else Returns (goto t L172 (C\<lparr>reg := R\<lparr>reg_mu := True\<rparr>\<rparr>))
      | L172 \<Rightarrow> Returns (goto t (if reg_locks R (key g) = None then L173 else L175) C)
      | L173 \<Rightarrow>
          Returns (goto t L175
            (C\<lparr>reg := R\<lparr>reg_locks := (reg_locks R)(key g \<mapsto> allocated R),
                          locked := (locked R)(allocated R := False),
                          allocated := allocated R + 1\<rparr>\<rparr>))
      | L175 \<Rightarrow>
          Returns (C\<lparr>gos := (gos C)(t := g\<lparr>line := L176, local_mu := reg_locks R (key g)\<rparr>)\<rparr>)
      | L176 \<Rightarrow>
          if reg_mu R then Returns (goto t L178 (C\<lparr>reg := R\<lparr>reg_mu := False\<rparr>\<rparr>))
          else Panics
      | L178 \<Rightarrow>
          (case local_mu g of
             None \<Rightarrow> Panics
           | Some a \<Rightarrow>
               if locked R a then Blocks
               else Returns (goto t InBody (C\<lparr>reg := R\<lparr>locked := (locked R)(a := True)\<rparr>\<rparr>)))
      | InBody \<Rightarrow> Returns (goto t L182 C)
      | L182 \<Rightarrow>
          if reg_mu R then Blocks
          else Returns (goto t L183 (C\<lparr>reg := R\<lparr>reg_mu := True\<rparr>\<rparr>))
      | L183 \<Rightarrow>
          (case reg_locks R (key g) of
             None \<Rightarrow> Panics
           | Some a \<Rightarrow>
               if locked R a
               then Returns (goto t L184 (C\<lparr>reg := R\<lparr>locked := (locked R)(a := False)\<rparr>\<rparr>))
               else Panics)
      | L184 \<Rightarrow>
          if reg_mu R then Returns (goto t Idle (C\<lparr>reg := R\<lparr>reg_mu := False\<rparr>\<rparr>))
          else Panics)"

text \<open>
  A schedule is the list of the goroutines that move, in order, each with the name it
  would call \<open>Clone\<close> for; running it stops at the first step that does not return. The
  client starts with both maps empty and every goroutine idle.
\<close>

fun interleave :: "conf \<Rightarrow> (nat \<times> string) list \<Rightarrow> conf outcome" where
  "interleave C [] = Returns C"
| "interleave C ((t, k) # sched) =
     (case fire t k C of
        Returns C' \<Rightarrow> interleave C' sched
      | Blocks \<Rightarrow> Blocks
      | Panics \<Rightarrow> Panics)"

definition initial :: conf where
  "initial =
     \<lparr>reg = \<lparr>reg_mu = False, reg_locks = Map.empty, locked = (\<lambda>a. False), allocated = 0\<rparr>,
      gos = (\<lambda>t. \<lparr>line = Idle, key = [], local_mu = None\<rparr>)\<rparr>"

text \<open>
  Where a goroutine is: \<open>inReg\<close>, between \<open>c.mu.Lock()\<close> and \<open>c.mu.Unlock()\<close>; \<open>holds\<close>,
  between its \<open>mu.Lock()\<close> and its \<open>Unlock()\<close>; \<open>hasEntry\<close>, past the \<open>if\<close> that makes the
  entry of its name and before the \<open>Unlock()\<close>; \<open>hasPtr\<close>, with \<open>mu\<close> read and not yet
  locked. \<open>remaining\<close> counts the statements from a line to the end of the call, at most.
\<close>

fun inReg :: "pc \<Rightarrow> bool" where
  "inReg L172 = True"
| "inReg L173 = True"
| "inReg L175 = True"
| "inReg L176 = True"
| "inReg L183 = True"
| "inReg L184 = True"
| "inReg p = False"

fun holds :: "pc \<Rightarrow> bool" where
  "holds InBody = True"
| "holds L182 = True"
| "holds L183 = True"
| "holds p = False"

fun hasEntry :: "pc \<Rightarrow> bool" where
  "hasEntry L175 = True"
| "hasEntry L176 = True"
| "hasEntry L178 = True"
| "hasEntry InBody = True"
| "hasEntry L182 = True"
| "hasEntry L183 = True"
| "hasEntry p = False"

fun hasPtr :: "pc \<Rightarrow> bool" where
  "hasPtr L176 = True"
| "hasPtr L178 = True"
| "hasPtr p = False"

fun remaining :: "pc \<Rightarrow> nat" where
  "remaining Idle = 0"
| "remaining L184 = 1"
| "remaining L183 = 2"
| "remaining L182 = 3"
| "remaining InBody = 4"
| "remaining L178 = 5"
| "remaining L176 = 6"
| "remaining L175 = 7"
| "remaining L173 = 8"
| "remaining L172 = 9"
| "remaining L171 = 10"

text \<open>
  What every reachable configuration satisfies: \<open>c.mu\<close> is locked exactly when a goroutine
  is between its \<open>Lock\<close> and \<open>Unlock\<close>, and there is at most one; a goroutine past line 174
  has an entry for its name, and the \<open>mu\<close> it read is that entry; entries are allocated
  addresses, different for different names; the mutex of a name is locked exactly
  when a goroutine of that name holds it, and there is at most one; and a goroutine at
  the store of line 173 has no entry for its name yet.
\<close>

definition coherent :: "conf \<Rightarrow> bool" where
  "coherent C =
     ((\<forall>t. inReg (line (gos C t)) \<longrightarrow> reg_mu (reg C)) \<and>
      (\<forall>t u. t \<noteq> u \<longrightarrow> inReg (line (gos C t)) \<longrightarrow> \<not> inReg (line (gos C u))) \<and>
      (\<forall>t. hasEntry (line (gos C t)) \<longrightarrow> reg_locks (reg C) (key (gos C t)) \<noteq> None) \<and>
      (\<forall>t. hasPtr (line (gos C t)) \<longrightarrow> local_mu (gos C t) = reg_locks (reg C) (key (gos C t))) \<and>
      (\<forall>k a. reg_locks (reg C) k = Some a \<longrightarrow> a < allocated (reg C)) \<and>
      (\<forall>k k' a. k \<noteq> k' \<longrightarrow> reg_locks (reg C) k = Some a \<longrightarrow> reg_locks (reg C) k' \<noteq> Some a) \<and>
      (\<forall>t a. holds (line (gos C t)) \<longrightarrow> reg_locks (reg C) (key (gos C t)) = Some a \<longrightarrow> locked (reg C) a) \<and>
      (\<forall>t u. t \<noteq> u \<longrightarrow> holds (line (gos C t)) \<longrightarrow> key (gos C t) = key (gos C u) \<longrightarrow>
         \<not> holds (line (gos C u))) \<and>
      (\<forall>k a. reg_locks (reg C) k = Some a \<longrightarrow> locked (reg C) a \<longrightarrow>
         (\<exists>t. holds (line (gos C t)) \<and> key (gos C t) = k)) \<and>
      (reg_mu (reg C) \<longrightarrow> (\<exists>t. inReg (line (gos C t)))) \<and>
      (\<forall>t. line (gos C t) = L173 \<longrightarrow> reg_locks (reg C) (key (gos C t)) = None))"

text \<open>
  \<open>leftAlone C C' w\<close>: between \<open>C\<close> and \<open>C'\<close> goroutine \<open>w\<close> has not moved, or it was not
  waiting at line 178 and holds no repository mutex now.
\<close>

definition leftAlone :: "conf \<Rightarrow> conf \<Rightarrow> nat \<Rightarrow> bool" where
  "leftAlone C C' w =
     (gos C' w = gos C w \<or> \<not> holds (line (gos C' w)) \<and> line (gos C w) \<noteq> L178)"

text \<open>
  One schedule, for the examples: goroutine 0 calls \<open>Clone\<close> for \<open>org/a\<close> and goes on into
  the body; goroutines 1 and 3 call it for \<open>org/a\<close> too and go on to line 178; goroutine 2
  calls it for \<open>org/b\<close> and goes on into the body; goroutine 5 calls it for \<open>org/a\<close>; and
  goroutine 4 calls it for \<open>org/c\<close> and takes \<open>c.mu\<close>. Then \<open>release\<close> is goroutine 4 going
  on to line 178 and goroutine 0 leaving the body and running \<open>unlockRepo\<close> to its end.
\<close>

definition demo :: "(nat \<times> string) list" where
  "demo = replicate 7 (0, ''org/a'') @ replicate 5 (1, ''org/a'') @
          replicate 5 (3, ''org/a'') @ replicate 7 (2, ''org/b'') @
          replicate 1 (5, ''org/a'') @ replicate 2 (4, ''org/c'')"

definition release :: "(nat \<times> string) list" where
  "release = replicate 4 (4, ''org/c'') @ replicate 4 (0, ''org/a'')"

text \<open>
  A configuration that no schedule reaches: goroutines 0 and 1 are both at line 173 for
  \<open>org/a\<close>, each having found no entry at line 172, as they could if \<open>c.mu.Lock()\<close> let both
  in. \<open>stores\<close> lets each of them run lines 173 and 175.
\<close>

definition racy :: conf where
  "racy = initial
     \<lparr>reg := (reg initial)\<lparr>reg_mu := True\<rparr>,
      gos := (gos initial)
        (0 := \<lparr>line = L173, key = ''org/a'', local_mu = None\<rparr>,
         1 := \<lparr>line = L173, key = ''org/a'', local_mu = None\<rparr>)\<rparr>"

definition stores :: "(nat \<times> string) list" where
  "stores = replicate 2 (0, ''org/a'') @ replicate 2 (1, ''org/a'')"

section \<open>Properties\<close>

subsection \<open>The hash of GetLatestRemoteHashForBranch\<close>

lemma Split_Cons: "\<exists>ps. Split s sep = takeWhile (\<lambda>x. x \<noteq> sep) s # ps"
  by (subst Split.simps) simp

lemma takeWhile_before_first:
  "sep \<notin> set h \<Longrightarrow> takeWhile (\<lambda>x. x \<noteq> sep) (h @ sep # rest) = h"
  by (induction h) auto

lemma takeWhile_absent: "sep \<notin> set s \<Longrightarrow> takeWhile (\<lambda>x. x \<noteq> sep) s = s"
  by (induction s) auto

lemma GetLatest_success:
  assumes "retryCommand sys 3 Second (logger c)
             (runGitCommand sys c ctx [] [''ls-remote'', ''refs/heads/'' @ branch]) w = ((out, None), w1)"
  shows "GetLatestRemoteHashForBranch sys c ctx remote branch w =
           Returns ((takeWhile (\<lambda>x. x \<noteq> tab) out, None), w1)"
proof -
  obtain ps where "Split out tab = takeWhile (\<lambda>x. x \<noteq> tab) out # ps"
    using Split_Cons by blast
  with assms show ?thesis
    by (simp add: GetLatestRemoteHashForBranch_def)
qed

lemma GetLatest_failure:
  assumes "retryCommand sys 3 Second (logger c)
             (runGitCommand sys c ctx [] [''ls-remote'', ''refs/heads/'' @ branch]) w = ((out, Some e), w1)"
  shows "GetLatestRemoteHashForBranch sys c ctx remote branch w =
           Returns (([], Some e),
             logAt ErrorLevel (logger c) (Msg ''failed to get latest remote hash for branch'')
               [zap_String ''remote'' remote, zap_String ''branch'' branch,
                zap_String ''out'' out, zap_Error e] w1)"
  using assms by (simp add: GetLatestRemoteHashForBranch_def)

lemma sim_ls_remote_once:
  "retryCommand simSys 3 Second (logger simClient)
     (runGitCommand simSys simClient (Context 0) [] [''ls-remote'', ''refs/heads/'' @ ''main''])
     (simWorld [] [(out, None)]) =
   ((out, None),
    \<lparr>ext = \<lparr>paths = [], replies = []\<rparr>,
     trace = [EvExec ''/usr/bin/git'' [] [''ls-remote'', ''refs/heads/main'']]\<rparr>)"
  by (simp add: retryCommand_def retryLoop.simps runGitCommand_def simSys_def sim_exec_def
      simWorld_def simClient_def emit_def)

text \<open>
  C3, as amended. When the remote ref listing succeeds with the output \<open>out\<close>,
  \<open>GetLatestRemoteHashForBranch\<close> returns, with a nil error, everything before the first
  tab character of \<open>out\<close>, and the whole of \<open>out\<close> as it is (nothing is trimmed) when
  \<open>out\<close> has no tab.
\<close>

theorem hash_is_output_before_first_tab:
  assumes "retryCommand sys 3 Second (logger c)
             (runGitCommand sys c ctx [] [''ls-remote'', ''refs/heads/'' @ branch]) w = ((out, None), w1)"
  shows "(\<forall>h rest. out = h @ tab # rest \<and> tab \<notin> set h \<longrightarrow>
            GetLatestRemoteHashForBranch sys c ctx remote branch w = Returns ((h, None), w1)) \<and>
         (tab \<notin> set out \<longrightarrow>
            GetLatestRemoteHashForBranch sys c ctx remote branch w = Returns ((out, None), w1))"
  using GetLatest_success [OF assms, of remote]
  by (auto simp: takeWhile_before_first takeWhile_absent)

text \<open>
  The output \<open>abc123deadbeef\trefs/heads/main\n\<close> of the spec gives the hash
  \<open>abc123deadbeef\<close>.
\<close>

theorem hash_is_output_before_first_tab_witness:
  "GetLatestRemoteHashForBranch simSys simClient (Context 0) ''origin'' ''main''
     (simWorld [] [(''abc123deadbeef'' @ tab # ''refs/heads/main'' @ [newline], None)]) =
   Returns ((''abc123deadbeef'', None),
     \<lparr>ext = \<lparr>paths = [], replies = []\<rparr>,
      trace = [EvExec ''/usr/bin/git'' [] [''ls-remote'', ''refs/heads/main'']]\<rparr>)"
proof -
  have "tab \<notin> set ''abc123deadbeef''"
    by (simp add: tab_def)
  then show ?thesis
    using hash_is_output_before_first_tab [OF sim_ls_remote_once, where remote = "''origin''"]
    by blast
qed

text \<open>
  C3 as stated fails where the output has no tab: the output \<open>abc123deadbeef\n\<close> comes
  back with its newline, not trimmed.
\<close>

theorem untrimmed_hash_counterexample:
  "result_of (GetLatestRemoteHashForBranch simSys simClient (Context 0) ''origin'' ''main''
     (simWorld [] [(''abc123deadbeef'' @ [newline], None)])) =
   Returns (''abc123deadbeef'' @ [newline], None) \<and>
   ''abc123deadbeef'' @ [newline] \<noteq> ''abc123deadbeef''"
  using GetLatest_success [OF sim_ls_remote_once, where remote = "''origin''"]
  by (simp add: result_of_def tab_def newline_def)

text \<open>
  C4, as amended. The error \<open>GetLatestRemoteHashForBranch\<close> returns is the error of the
  retried listing command and nothing else: when the command succeeds the error is nil
  whatever the output holds, and an output without the branch ref, such as the empty
  output, gives the empty hash with a nil error.
\<close>

theorem error_is_the_listing_error:
  assumes "retryCommand sys 3 Second (logger c)
             (runGitCommand sys c ctx [] [''ls-remote'', ''refs/heads/'' @ branch]) w = ((out, err), w1)"
  shows "(\<exists>h. result_of (GetLatestRemoteHashForBranch sys c ctx remote branch w) = Returns (h, err)) \<and>
         (err = None \<longrightarrow> out = [] \<longrightarrow>
            GetLatestRemoteHashForBranch sys c ctx remote branch w = Returns (([], None), w1))"
proof (cases err)
  case None
  with assms show ?thesis
    using GetLatest_success [of sys c ctx branch w out w1 remote]
    by (auto simp: result_of_def)
next
  case (Some e)
  with assms show ?thesis
    using GetLatest_failure [of sys c ctx branch w out e w1 remote]
    by (auto simp: result_of_def)
qed

theorem error_is_the_listing_error_witness:
  "GetLatestRemoteHashForBranch simSys simClient (Context 0) ''origin'' ''main''
     (simWorld [] [([], None)]) =
   Returns (([], None),
     \<lparr>ext = \<lparr>paths = [], replies = []\<rparr>,
      trace = [EvExec ''/usr/bin/git'' [] [''ls-remote'', ''refs/heads/main'']]\<rparr>)"
  using error_is_the_listing_error [OF sim_ls_remote_once, where remote = "''origin''"]
  by blast

text \<open>
  C4 as stated fails: the listing succeeds with an empty output, and the call returns
  the empty hash with a nil error.
\<close>

theorem empty_output_counterexample:
  "result_of (GetLatestRemoteHashForBranch simSys simClient (Context 0) ''origin'' ''main''
     (simWorld [] [([], None)])) = Returns ([], None)"
  using GetLatest_success [OF sim_ls_remote_once, where remote = "''origin''"]
  by (simp add: result_of_def)

text \<open>
  C10. Two calls of \<open>GetLatestRemoteHashForBranch\<close> that differ only in \<open>remote\<close> return
  the same hash and the same error. They leave the outside world in the same state and
  have run the same commands: \<open>remote\<close> is in the fields of the error log and nowhere
  else.
\<close>

theorem result_independent_of_remote:
  "\<exists>r w1 w2.
     GetLatestRemoteHashForBranch sys c ctx remote1 branch w = Returns (r, w1) \<and>
     GetLatestRemoteHashForBranch sys c ctx remote2 branch w = Returns (r, w2) \<and>
     ext w1 = ext w2 \<and>
     filter (\<lambda>ev. \<not> is_log ev) (trace w1) = filter (\<lambda>ev. \<not> is_log ev) (trace w2)"
proof -
  obtain out err w' where run:
    "retryCommand sys 3 Second (logger c)
       (runGitCommand sys c ctx [] [''ls-remote'', ''refs/heads/'' @ branch]) w = ((out, err), w')"
    by (metis surj_pair)
  show ?thesis
  proof (cases err)
    case None
    with run show ?thesis
      using GetLatest_success [of sys c ctx branch w out w'] by auto
  next
    case (Some e)
    with run show ?thesis
      using GetLatest_failure [of sys c ctx branch w out e w']
      by (auto simp: logAt_def emit_def)
  qed
qed

theorem result_independent_of_remote_witness:
  "\<exists>r w1 w2.
     GetLatestRemoteHashForBranch simSys simClient (Context 0) ''origin'' ''main''
       (simWorld [] [(''fatal'', Some (ErrOther ''exit status 128'')),
          (''fatal'', Some (ErrOther ''exit status 128'')),
          (''fatal'', Some (ErrOther ''exit status 128''))]) = Returns (r, w1) \<and>
     GetLatestRemoteHashForBranch simSys simClient (Context 0) ''upstream'' ''main''
       (simWorld [] [(''fatal'', Some (ErrOther ''exit status 128'')),
          (''fatal'', Some (ErrOther ''exit status 128'')),
          (''fatal'', Some (ErrOther ''exit status 128''))]) = Returns (r, w2) \<and>
     ext w1 = ext w2 \<and>
     filter (\<lambda>ev. \<not> is_log ev) (trace w1) = filter (\<lambda>ev. \<not> is_log ev) (trace w2)"
  by (rule result_independent_of_remote)

subsection \<open>The retry wrapper\<close>

lemma attemptFrom_shift:
  "attemptFrom sys d lg f i w (Suc k) =
   attemptFrom sys d lg f (i + 1) (afterFailure sys d lg i (snd (f w))) k"
  by (induction k) (simp_all add: algebra_simps)

lemma retryLoop_done: "\<not> i < retries \<Longrightarrow> retryLoop sys retries d lg f i r w = (r, w)"
  by (subst retryLoop.simps) simp

lemma retryLoop_success:
  "i < retries \<Longrightarrow> f w = ((out, None), w1) \<Longrightarrow>
   retryLoop sys retries d lg f i r w = ((out, None), w1)"
  by (subst retryLoop.simps) simp

lemma retryLoop_failure:
  "i < retries \<Longrightarrow> f w = ((out, Some e), w1) \<Longrightarrow>
   retryLoop sys retries d lg f i r w =
   retryLoop sys retries d lg f (i + 1) (out, Some e) (afterFailure sys d lg i w1)"
  by (subst retryLoop.simps) simp

lemma retryLoop_contract:
  "i < retries \<Longrightarrow>
   \<exists>k. int k < retries - i \<and>
       (\<forall>j<k. snd (fst (f (attemptFrom sys d lg f i w j))) \<noteq> None) \<and>
       (case f (attemptFrom sys d lg f i w k) of
          ((out, None), w') \<Rightarrow> retryLoop sys retries d lg f i r w = ((out, None), w')
        | ((out, Some e), w') \<Rightarrow>
            int k + 1 = retries - i \<and>
            retryLoop sys retries d lg f i r w = ((out, Some e), afterFailure sys d lg (i + int k) w'))"
proof (induction sys retries d lg f i r w rule: retryLoop.induct)
  case (1 sys retries d lg f i r w)
  obtain out err w1 where fw: "f w = ((out, err), w1)"
    by (metis surj_pair)
  show ?case
  proof (cases err)
    case None
    with fw "1.prems" have "retryLoop sys retries d lg f i r w = ((out, None), w1)"
      by (simp add: retryLoop_success)
    with fw None "1.prems" show ?thesis
      by (intro exI [of _ 0]) simp
  next
    case (Some e)
    with fw "1.prems" have step:
      "retryLoop sys retries d lg f i r w =
       retryLoop sys retries d lg f (i + 1) (out, Some e) (afterFailure sys d lg i w1)"
      by (simp add: retryLoop_failure)
    show ?thesis
    proof (cases "i + 1 < retries")
      case False
      with step have "retryLoop sys retries d lg f i r w = ((out, Some e), afterFailure sys d lg i w1)"
        by (simp add: retryLoop_done)
      with fw Some False "1.prems" show ?thesis
        by (intro exI [of _ 0]) simp
    next
      case True
      let ?w = "afterFailure sys d lg i w1"
      from "1.IH" [OF "1.prems" fw [unfolded Some, symmetric] refl refl True]
      obtain k where kk: "int k < retries - (i + 1) \<and>
        (\<forall>j<k. snd (fst (f (attemptFrom sys d lg f (i + 1) ?w j))) \<noteq> None) \<and>
        (case f (attemptFrom sys d lg f (i + 1) ?w k) of
          ((out', None), w') \<Rightarrow>
             retryLoop sys retries d lg f (i + 1) (out, Some e) ?w = ((out', None), w')
        | ((out', Some e'), w') \<Rightarrow>
            int k + 1 = retries - (i + 1) \<and>
            retryLoop sys retries d lg f (i + 1) (out, Some e) ?w =
              ((out', Some e'), afterFailure sys d lg (i + 1 + int k) w'))" ..
      from kk have k: "int k < retries - (i + 1)"
        by (rule conjunct1)
      from kk have fails: "\<forall>j<k. snd (fst (f (attemptFrom sys d lg f (i + 1) ?w j))) \<noteq> None"
        by (rule conjunct1 [OF conjunct2])
      from kk have last: "(case f (attemptFrom sys d lg f (i + 1) ?w k) of
          ((out', None), w') \<Rightarrow>
             retryLoop sys retries d lg f (i + 1) (out, Some e) ?w = ((out', None), w')
        | ((out', Some e'), w') \<Rightarrow>
            int k + 1 = retries - (i + 1) \<and>
            retryLoop sys retries d lg f (i + 1) (out, Some e) ?w =
              ((out', Some e'), afterFailure sys d lg (i + 1 + int k) w'))"
        by (rule conjunct2 [OF conjunct2])
      have shift: "\<And>j. attemptFrom sys d lg f i w (Suc j) = attemptFrom sys d lg f (i + 1) ?w j"
        using fw by (simp only: attemptFrom_shift snd_conv)
      have A: "\<forall>j<Suc k. snd (fst (f (attemptFrom sys d lg f i w j))) \<noteq> None"
      proof (intro allI impI)
        fix j assume "j < Suc k"
        show "snd (fst (f (attemptFrom sys d lg f i w j))) \<noteq> None"
        proof (cases j)
          case 0
          with fw Some show ?thesis by simp
        next
          case (Suc j')
          with \<open>j < Suc k\<close> fails shift show ?thesis by simp
        qed
      qed
      have B: "int (Suc k) < retries - i" using k by simp
      have C: "(case f (attemptFrom sys d lg f i w (Suc k)) of
          ((out', None), w') \<Rightarrow> retryLoop sys retries d lg f i r w = ((out', None), w')
        | ((out', Some e'), w') \<Rightarrow>
            int (Suc k) + 1 = retries - i \<and>
            retryLoop sys retries d lg f i r w =
              ((out', Some e'), afterFailure sys d lg (i + int (Suc k)) w'))"
      proof -
        obtain out' err' w' where fk: "f (attemptFrom sys d lg f (i + 1) ?w k) = ((out', err'), w')"
          by (metis surj_pair)
        have idx: "i + int (Suc k) = i + 1 + int k"
          by simp
        show ?thesis
        proof (cases err')
          case None
          with last fk have "retryLoop sys retries d lg f (i + 1) (out, Some e) ?w = ((out', None), w')"
            by simp
          with fk None show ?thesis
            by (simp only: shift step prod.case option.case)
        next
          case (Some e')
          with last fk have "int k + 1 = retries - (i + 1) \<and>
            retryLoop sys retries d lg f (i + 1) (out, Some e) ?w =
              ((out', Some e'), afterFailure sys d lg (i + 1 + int k) w')"
            by simp
          moreover from this have "int (Suc k) + 1 = retries - i"
            by simp
          ultimately show ?thesis
            using fk Some by (simp only: shift step prod.case option.case idx)
        qed
      qed
      from conjI [OF B conjI [OF A C]] show ?thesis
        by (rule exI)
    qed
  qed
qed

lemma retryCommand_attempts:
  assumes "1 \<le> retries"
  shows "\<exists>k. int k < retries \<and>
       (\<forall>j<k. snd (fst (f (attemptStart sys d lg f w j))) \<noteq> None) \<and>
       (case f (attemptStart sys d lg f w k) of
          ((out, None), w') \<Rightarrow> retryCommand sys retries d lg f w = ((out, None), w')
        | ((out, Some e), w') \<Rightarrow>
            int k + 1 = retries \<and>
            retryCommand sys retries d lg f w = ((out, Some e), afterFailure sys d lg (int k) w'))"
proof -
  from assms have "0 < retries" by simp
  from retryLoop_contract [OF this, of f sys d lg w "([], None)"]
  show ?thesis
    by (simp only: retryCommand_def attemptStart_def diff_0_right add_0)
qed

lemma retryCommand_third_succeeds:
  assumes "f w = ((o1, Some e1), w1)"
    and "f (afterFailure sys d lg 0 w1) = ((o2, Some e2), w2)"
    and "f (afterFailure sys d lg 1 w2) = ((o3, None), w3)"
  shows "retryCommand sys 3 d lg f w = ((o3, None), w3)"
  using assms
  by (simp add: retryCommand_def retryLoop_failure retryLoop_success)

lemma filter_afterFailure:
  "filter is_warning (trace (afterFailure sys d lg i w)) =
     filter is_warning (trace w) @
       [EvLog WarnLevel
          (Sprintf ''command was failed %d times, sleep %d seconds before retrying command''
             [ArgInt (i + 1), ArgInt d]) lg]"
  "filter is_sleep (trace (afterFailure sys d lg i w)) = filter is_sleep (trace w) @ [EvSleep d]"
  "filter is_exec (trace (afterFailure sys d lg i w)) = filter is_exec (trace w)"
  by (simp_all add: afterFailure_def time_Sleep_def logAt_def emit_def)

lemma runGitCommand_trace:
  "trace (snd (runGitCommand sys c ctx dir args w)) = trace w @ [EvExec (gitPath c) dir args]"
  by (simp add: runGitCommand_def emit_def split: prod.splits)

lemma runGitCommand_quiet:
  "filter is_warning (trace (snd (runGitCommand sys c ctx dir args u))) = filter is_warning (trace u) \<and>
   filter is_sleep (trace (snd (runGitCommand sys c ctx dir args u))) = filter is_sleep (trace u)"
  by (simp add: runGitCommand_trace)

lemmas sim_defs = simFetch_def runGitCommand_def simSys_def sim_exec_def simWorld_def simClient_def
  emit_def afterFailure_def time_Sleep_def logAt_def Second_def sim_Stat_def sim_MkdirAll_def
  sim_RemoveAll_def

text \<open>
  C2. With at least one attempt allowed, \<open>retryCommand\<close> makes the attempts one after the
  other, each failed one followed by its warning and its sleep, up to a last attempt
  number \<open>k + 1\<close> that is at most \<open>retries\<close>: every attempt before it failed, and what it
  gave is what \<open>retryCommand\<close> returns, output and error. Either that attempt succeeded,
  and the world is as the attempt left it, or it was attempt number \<open>retries\<close> and failed.
  In particular, when an operation that itself neither warns nor sleeps fails twice and
  then succeeds, three attempts allowed return the third result with a nil error, two
  warnings are logged, two sleeps are made, and the world is as the third attempt left
  it: nothing is slept after it.
\<close>

theorem retryCommand_contract:
  "(1 \<le> retries \<longrightarrow>
      (\<exists>k. int k < retries \<and>
         (\<forall>j<k. snd (fst (commander (attemptStart sys interval lg commander w j))) \<noteq> None) \<and>
         (case commander (attemptStart sys interval lg commander w k) of
            ((out, None), w') \<Rightarrow>
              retryCommand sys retries interval lg commander w = ((out, None), w')
          | ((out, Some e), w') \<Rightarrow>
              int k + 1 = retries \<and>
              retryCommand sys retries interval lg commander w =
                ((out, Some e), afterFailure sys interval lg (int k) w')))) \<and>
   (commander w = ((o1, Some e1), w1) \<and>
    commander (afterFailure sys interval lg 0 w1) = ((o2, Some e2), w2) \<and>
    commander (afterFailure sys interval lg 1 w2) = ((o3, None), w3) \<and>
    (\<forall>u. filter is_warning (trace (snd (commander u))) = filter is_warning (trace u) \<and>
         filter is_sleep (trace (snd (commander u))) = filter is_sleep (trace u)) \<longrightarrow>
      retryCommand sys 3 interval lg commander w = ((o3, None), w3) \<and>
      length (filter is_warning (trace w3)) = length (filter is_warning (trace w)) + 2 \<and>
      length (filter is_sleep (trace w3)) = length (filter is_sleep (trace w)) + 2)"
proof (intro conjI impI)
  assume "1 \<le> retries"
  then show "\<exists>k. int k < retries \<and>
         (\<forall>j<k. snd (fst (commander (attemptStart sys interval lg commander w j))) \<noteq> None) \<and>
         (case commander (attemptStart sys interval lg commander w k) of
            ((out, None), w') \<Rightarrow>
              retryCommand sys retries interval lg commander w = ((out, None), w')
          | ((out, Some e), w') \<Rightarrow>
              int k + 1 = retries \<and>
              retryCommand sys retries interval lg commander w =
                ((out, Some e), afterFailure sys interval lg (int k) w'))"
    by (rule retryCommand_attempts)
next
  assume h: "commander w = ((o1, Some e1), w1) \<and>
    commander (afterFailure sys interval lg 0 w1) = ((o2, Some e2), w2) \<and>
    commander (afterFailure sys interval lg 1 w2) = ((o3, None), w3) \<and>
    (\<forall>u. filter is_warning (trace (snd (commander u))) = filter is_warning (trace u) \<and>
         filter is_sleep (trace (snd (commander u))) = filter is_sleep (trace u))"
  then have a1: "commander w = ((o1, Some e1), w1)"
    and a2: "commander (afterFailure sys interval lg 0 w1) = ((o2, Some e2), w2)"
    and a3: "commander (afterFailure sys interval lg 1 w2) = ((o3, None), w3)"
    and quiet: "\<And>u. filter is_warning (trace (snd (commander u))) = filter is_warning (trace u)"
      "\<And>u. filter is_sleep (trace (snd (commander u))) = filter is_sleep (trace u)"
    by simp_all
  from a1 a2 a3 show "retryCommand sys 3 interval lg commander w = ((o3, None), w3)"
    by (rule retryCommand_third_succeeds)
  have w1: "w1 = snd (commander w)"
    and w2: "w2 = snd (commander (afterFailure sys interval lg 0 w1))"
    and w3: "w3 = snd (commander (afterFailure sys interval lg 1 w2))"
    using a1 a2 a3 by simp_all
  show "length (filter is_warning (trace w3)) = length (filter is_warning (trace w)) + 2"
    by (subst w3, simp only: quiet filter_afterFailure, subst w2,
        simp only: quiet filter_afterFailure, subst w1, simp only: quiet) simp
  show "length (filter is_sleep (trace w3)) = length (filter is_sleep (trace w)) + 2"
    by (subst w3, simp only: quiet filter_afterFailure, subst w2,
        simp only: quiet filter_afterFailure, subst w1, simp only: quiet) simp
qed

theorem retryCommand_contract_witness:
  "(1::int) \<le> 3 \<and>
   retryCommand simSys 3 Second [] simFetch
     (simWorld [''/tmp/gitcache/org/repo.git'']
        [(''reset'', Some (ErrOther ''exit status 128'')),
         (''reset'', Some (ErrOther ''exit status 128'')),
         (''done'', None)]) =
   ((''done'', None),
    \<lparr>ext = \<lparr>paths = [''/tmp/gitcache/org/repo.git''], replies = []\<rparr>,
     trace =
       [EvExec ''/usr/bin/git'' ''/tmp/gitcache/org/repo.git'' [''fetch''],
        EvLog WarnLevel
          (Sprintf ''command was failed %d times, sleep %d seconds before retrying command''
             [ArgInt 1, ArgInt 1000000000]) [],
        EvSleep 1000000000,
        EvExec ''/usr/bin/git'' ''/tmp/gitcache/org/repo.git'' [''fetch''],
        EvLog WarnLevel
          (Sprintf ''command was failed %d times, sleep %d seconds before retrying command''
             [ArgInt 2, ArgInt 1000000000]) [],
        EvSleep 1000000000,
        EvExec ''/usr/bin/git'' ''/tmp/gitcache/org/repo.git'' [''fetch'']]\<rparr>)"
proof -
  let ?w = "simWorld [''/tmp/gitcache/org/repo.git'']
        [(''reset'', Some (ErrOther ''exit status 128'')),
         (''reset'', Some (ErrOther ''exit status 128'')),
         (''done'', None)]"
  let ?e1 = "EvExec ''/usr/bin/git'' ''/tmp/gitcache/org/repo.git'' [''fetch'']"
  let ?w1 = "\<lparr>ext = \<lparr>paths = [''/tmp/gitcache/org/repo.git''],
                 replies = [(''reset'', Some (ErrOther ''exit status 128'')), (''done'', None)]\<rparr>,
            trace = [?e1]\<rparr>"
  let ?w2 = "\<lparr>ext = \<lparr>paths = [''/tmp/gitcache/org/repo.git''], replies = [(''done'', None)]\<rparr>,
     trace =
       [?e1,
        EvLog WarnLevel
          (Sprintf ''command was failed %d times, sleep %d seconds before retrying command''
             [ArgInt 1, ArgInt 1000000000]) [],
        EvSleep 1000000000, ?e1]\<rparr>"
  have a1: "simFetch ?w = ((''reset'', Some (ErrOther ''exit status 128'')), ?w1)"
    by (simp add: sim_defs)
  have a2: "simFetch (afterFailure simSys Second [] 0 ?w1) =
              ((''reset'', Some (ErrOther ''exit status 128'')), ?w2)"
    by (simp add: sim_defs)
  have a3: "simFetch (afterFailure simSys Second [] 1 ?w2) =
     ((''done'', None),
    \<lparr>ext = \<lparr>paths = [''/tmp/gitcache/org/repo.git''], replies = []\<rparr>,
     trace =
       [EvExec ''/usr/bin/git'' ''/tmp/gitcache/org/repo.git'' [''fetch''],
        EvLog WarnLevel
          (Sprintf ''command was failed %d times, sleep %d seconds before retrying command''
             [ArgInt 1, ArgInt 1000000000]) [],
        EvSleep 1000000000,
        EvExec ''/usr/bin/git'' ''/tmp/gitcache/org/repo.git'' [''fetch''],
        EvLog WarnLevel
          (Sprintf ''command was failed %d times, sleep %d seconds before retrying command''
             [ArgInt 2, ArgInt 1000000000]) [],
        EvSleep 1000000000,
        EvExec ''/usr/bin/git'' ''/tmp/gitcache/org/repo.git'' [''fetch'']]\<rparr>)"
    by (simp add: sim_defs)
  have quiet: "\<forall>u. filter is_warning (trace (snd (simFetch u))) = filter is_warning (trace u) \<and>
         filter is_sleep (trace (snd (simFetch u))) = filter is_sleep (trace u)"
    unfolding simFetch_def by (intro allI runGitCommand_quiet)
  from retryCommand_contract [of 3 simFetch simSys Second "[]" ?w, THEN conjunct2, rule_format,
      OF conjI [OF a1 conjI [OF a2 conjI [OF a3 quiet]]]]
  show ?thesis by simp
qed

lemma retryCommand_second_succeeds:
  assumes "2 \<le> retries"
    and "f w = ((o1, Some e1), w1)"
    and "f (afterFailure sys d lg 0 w1) = ((o2, None), w2)"
  shows "retryCommand sys retries d lg f w = ((o2, None), w2)"
  using assms
  by (simp add: retryCommand_def retryLoop_failure retryLoop_success)

lemma less_3_cases: "int j < 3 \<Longrightarrow> j = 0 \<or> j = Suc 0 \<or> j = Suc (Suc 0)"
  by presburger

text \<open>
  C8, as amended. \<open>retryCommand\<close> treats a cancellation like any other failure. When
  every attempt fails with the cancellation error, all the attempts allowed are made,
  each followed by its warning and its sleep, and the cancellation error of the last one
  is returned. When a first attempt fails with the cancellation error and a second one
  succeeds, the second result is returned.
\<close>

theorem cancellation_is_retried:
  "(1 \<le> retries \<and>
    (\<forall>j. int j < retries \<longrightarrow>
       snd (fst (commander (attemptStart sys interval lg commander w j))) = Some ErrCanceled) \<longrightarrow>
      (\<exists>out. retryCommand sys retries interval lg commander w =
         ((out, Some ErrCanceled), attemptStart sys interval lg commander w (nat retries)))) \<and>
   (2 \<le> retries \<and> commander w = ((o1, Some ErrCanceled), w1) \<and>
    commander (afterFailure sys interval lg 0 w1) = ((o2, None), w2) \<longrightarrow>
      retryCommand sys retries interval lg commander w = ((o2, None), w2))"
proof (intro conjI impI)
  assume h: "1 \<le> retries \<and>
    (\<forall>j. int j < retries \<longrightarrow>
       snd (fst (commander (attemptStart sys interval lg commander w j))) = Some ErrCanceled)"
  then have pos: "1 \<le> retries"
    and cancelled: "\<And>j. int j < retries \<Longrightarrow>
       snd (fst (commander (attemptStart sys interval lg commander w j))) = Some ErrCanceled"
    by simp_all
  from retryCommand_attempts [OF pos, of commander sys interval lg w]
  obtain k where kk: "int k < retries \<and>
       (\<forall>j<k. snd (fst (commander (attemptStart sys interval lg commander w j))) \<noteq> None) \<and>
       (case commander (attemptStart sys interval lg commander w k) of
          ((out, None), w') \<Rightarrow> retryCommand sys retries interval lg commander w = ((out, None), w')
        | ((out, Some e), w') \<Rightarrow>
            int k + 1 = retries \<and>
            retryCommand sys retries interval lg commander w =
              ((out, Some e), afterFailure sys interval lg (int k) w'))" ..
  then have k: "int k < retries"
    by (rule conjunct1)
  obtain out w' where fk:
    "commander (attemptStart sys interval lg commander w k) = ((out, Some ErrCanceled), w')"
    using cancelled [OF k] by (metis prod.collapse)
  from kk have "(case commander (attemptStart sys interval lg commander w k) of
          ((out, None), w') \<Rightarrow> retryCommand sys retries interval lg commander w = ((out, None), w')
        | ((out, Some e), w') \<Rightarrow>
            int k + 1 = retries \<and>
            retryCommand sys retries interval lg commander w =
              ((out, Some e), afterFailure sys interval lg (int k) w'))"
    by (rule conjunct2 [OF conjunct2])
  with fk have last: "int k + 1 = retries"
    and res: "retryCommand sys retries interval lg commander w =
              ((out, Some ErrCanceled), afterFailure sys interval lg (int k) w')"
    by simp_all
  from last have "nat retries = Suc k" by simp
  with fk have "attemptStart sys interval lg commander w (nat retries) =
                afterFailure sys interval lg (int k) w'"
    by (simp add: attemptStart_def)
  with res show "\<exists>out. retryCommand sys retries interval lg commander w =
         ((out, Some ErrCanceled), attemptStart sys interval lg commander w (nat retries))"
    by simp
next
  assume "2 \<le> retries \<and> commander w = ((o1, Some ErrCanceled), w1) \<and>
    commander (afterFailure sys interval lg 0 w1) = ((o2, None), w2)"
  then show "retryCommand sys retries interval lg commander w = ((o2, None), w2)"
    using retryCommand_second_succeeds [of retries commander w o1 ErrCanceled w1 sys interval lg o2 w2]
    by simp
qed

theorem cancellation_is_retried_witness:
  "(1::int) \<le> 3 \<and>
   fst (retryCommand simSys 3 Second [] simFetch cancelledWorld) = ([], Some ErrCanceled) \<and>
   (2::int) \<le> 3 \<and>
   fst (retryCommand simSys 3 Second [] simFetch
     (simWorld [] [(''signal: killed'', Some ErrCanceled), (''done'', None)])) = (''done'', None)"
proof -
  have all: "\<forall>j. int j < 3 \<longrightarrow>
       snd (fst (simFetch (attemptStart simSys Second [] simFetch cancelledWorld j))) = Some ErrCanceled"
  proof (intro allI impI)
    fix j assume "int j < 3"
    then have "j = 0 \<or> j = Suc 0 \<or> j = Suc (Suc 0)"
      by (rule less_3_cases)
    then show "snd (fst (simFetch (attemptStart simSys Second [] simFetch cancelledWorld j))) = Some ErrCanceled"
      by (auto simp: attemptStart_def cancelledWorld_def sim_defs)
  qed
  have first: "\<exists>out. retryCommand simSys 3 Second [] simFetch cancelledWorld =
         ((out, Some ErrCanceled), attemptStart simSys Second [] simFetch cancelledWorld (nat 3))"
    using cancellation_is_retried [of 3 simFetch simSys Second "[]" cancelledWorld, THEN conjunct1]
      all by simp
  have a1: "simFetch (simWorld [] [(''signal: killed'', Some ErrCanceled), (''done'', None)]) =
     ((''signal: killed'', Some ErrCanceled),
      \<lparr>ext = \<lparr>paths = [], replies = [(''done'', None)]\<rparr>,
       trace = [EvExec ''/usr/bin/git'' ''/tmp/gitcache/org/repo.git'' [''fetch'']]\<rparr>)"
    by (simp add: sim_defs)
  have a2: "simFetch (afterFailure simSys Second [] 0
      \<lparr>ext = \<lparr>paths = [], replies = [(''done'', None)]\<rparr>,
       trace = [EvExec ''/usr/bin/git'' ''/tmp/gitcache/org/repo.git'' [''fetch'']]\<rparr>) =
     ((''done'', None), snd (simFetch (afterFailure simSys Second [] 0
      \<lparr>ext = \<lparr>paths = [], replies = [(''done'', None)]\<rparr>,
       trace = [EvExec ''/usr/bin/git'' ''/tmp/gitcache/org/repo.git'' [''fetch'']]\<rparr>)))"
    by (simp add: sim_defs)
  have second: "retryCommand simSys 3 Second [] simFetch
     (simWorld [] [(''signal: killed'', Some ErrCanceled), (''done'', None)]) =
     ((''done'', None), snd (simFetch (afterFailure simSys Second [] 0
      \<lparr>ext = \<lparr>paths = [], replies = [(''done'', None)]\<rparr>,
       trace = [EvExec ''/usr/bin/git'' ''/tmp/gitcache/org/repo.git'' [''fetch'']]\<rparr>)))"
    using cancellation_is_retried [THEN conjunct2, rule_format, OF conjI [OF _ conjI [OF a1 a2]]]
    by simp
  have out: "fst (fst (retryCommand simSys 3 Second [] simFetch cancelledWorld)) = []"
    by (simp add: retryCommand_def retryLoop.simps cancelledWorld_def sim_defs)
  from first out second show ?thesis
    by auto
qed

text \<open>
  C8 as stated fails: the first attempt fails with the cancellation error, and the
  command is run three times, with three sleeps.
\<close>

theorem cancelled_attempts_counterexample:
  "snd (fst (simFetch cancelledWorld)) = Some ErrCanceled \<and>
   length (filter is_exec (trace (snd (retryCommand simSys 3 Second [] simFetch cancelledWorld)))) = 3 \<and>
   length (filter is_sleep (trace (snd (retryCommand simSys 3 Second [] simFetch cancelledWorld)))) = 3"
  by (simp add: retryCommand_def retryLoop.simps cancelledWorld_def sim_defs)

lemma trace_afterFailure:
  "trace (afterFailure sys d lg i w) = trace w @ [retryWarning d lg i, EvSleep d]"
  by (simp add: afterFailure_def time_Sleep_def logAt_def emit_def retryWarning_def)

lemma trace_attemptStart:
  "trace (attemptStart sys d lg (runGitCommand sys c ctx dir args) w k) =
   trace w @ failedAttempts (EvExec (gitPath c) dir args) d lg k"
  by (induction k)
     (simp_all add: attemptStart_def failedAttempts_def trace_afterFailure runGitCommand_trace)

lemma retryCommand_cases:
  assumes "1 \<le> retries"
  obtains (succeeds) k out w' where "int k < retries"
      and "\<forall>j<k. snd (fst (f (attemptStart sys d lg f w j))) \<noteq> None"
      and "f (attemptStart sys d lg f w k) = ((out, None), w')"
      and "retryCommand sys retries d lg f w = ((out, None), w')"
    | (exhausted) k out e w' where "int k + 1 = retries"
      and "\<forall>j<k. snd (fst (f (attemptStart sys d lg f w j))) \<noteq> None"
      and "f (attemptStart sys d lg f w k) = ((out, Some e), w')"
      and "retryCommand sys retries d lg f w = ((out, Some e), afterFailure sys d lg (int k) w')"
proof -
  from retryCommand_attempts [OF assms, of f sys d lg w]
  obtain k where kk: "int k < retries \<and>
       (\<forall>j<k. snd (fst (f (attemptStart sys d lg f w j))) \<noteq> None) \<and>
       (case f (attemptStart sys d lg f w k) of
          ((out, None), w') \<Rightarrow> retryCommand sys retries d lg f w = ((out, None), w')
        | ((out, Some e), w') \<Rightarrow>
            int k + 1 = retries \<and>
            retryCommand sys retries d lg f w = ((out, Some e), afterFailure sys d lg (int k) w'))" ..
  from kk have k: "int k < retries"
    by (rule conjunct1)
  from kk have fails: "\<forall>j<k. snd (fst (f (attemptStart sys d lg f w j))) \<noteq> None"
    by (rule conjunct1 [OF conjunct2])
  from kk have last: "(case f (attemptStart sys d lg f w k) of
          ((out, None), w') \<Rightarrow> retryCommand sys retries d lg f w = ((out, None), w')
        | ((out, Some e), w') \<Rightarrow>
            int k + 1 = retries \<and>
            retryCommand sys retries d lg f w = ((out, Some e), afterFailure sys d lg (int k) w'))"
    by (rule conjunct2 [OF conjunct2])
  obtain out err w1 where fk: "f (attemptStart sys d lg f w k) = ((out, err), w1)"
    by (metis surj_pair)
  show ?thesis
  proof (cases err)
    case None
    with last fk have "retryCommand sys retries d lg f w = ((out, None), w1)"
      by simp
    with k fails fk None show ?thesis
      by (intro succeeds [of k out w1]) simp_all
  next
    case (Some e)
    with last fk have "int k + 1 = retries"
      and "retryCommand sys retries d lg f w = ((out, Some e), afterFailure sys d lg (int k) w1)"
      by simp_all
    with fails fk Some show ?thesis
      by (intro exhausted [of k out e w1]) simp_all
  qed
qed

lemma retry_run_trace:
  assumes "1 \<le> retries"
  shows "\<exists>k out err w'. int k < retries \<and>
           retryCommand sys retries d lg (runGitCommand sys c ctx dir args) w = ((out, err), w') \<and>
           (\<forall>j<k. snd (fst (runGitCommand sys c ctx dir args
                     (attemptStart sys d lg (runGitCommand sys c ctx dir args) w j))) \<noteq> None) \<and>
           (err = None \<and>
              trace w' = trace w @ failedAttempts (EvExec (gitPath c) dir args) d lg k @
                           [EvExec (gitPath c) dir args] \<or>
            err \<noteq> None \<and> int k + 1 = retries \<and>
              trace w' = trace w @ failedAttempts (EvExec (gitPath c) dir args) d lg (Suc k))"
proof -
  let ?f = "runGitCommand sys c ctx dir args"
  let ?E = "EvExec (gitPath c) dir args"
  show ?thesis
  proof (rule retryCommand_cases [OF assms, of ?f sys d lg w])
    fix k out w'
    assume k: "int k < retries"
      and fails: "\<forall>j<k. snd (fst (?f (attemptStart sys d lg ?f w j))) \<noteq> None"
      and fk: "?f (attemptStart sys d lg ?f w k) = ((out, None), w')"
      and r: "retryCommand sys retries d lg ?f w = ((out, None), w')"
    have "trace w' = trace w @ failedAttempts ?E d lg k @ [?E]"
      using runGitCommand_trace [of sys c ctx dir args "attemptStart sys d lg ?f w k"]
      by (simp add: fk trace_attemptStart)
    with k fails r show ?thesis
      by blast
  next
    fix k out e w'
    assume l: "int k + 1 = retries"
      and fails: "\<forall>j<k. snd (fst (?f (attemptStart sys d lg ?f w j))) \<noteq> None"
      and fk: "?f (attemptStart sys d lg ?f w k) = ((out, Some e), w')"
      and r: "retryCommand sys retries d lg ?f w = ((out, Some e), afterFailure sys d lg (int k) w')"
    have "trace w' = trace w @ failedAttempts ?E d lg k @ [?E]"
      using runGitCommand_trace [of sys c ctx dir args "attemptStart sys d lg ?f w k"]
      by (simp add: fk trace_attemptStart)
    then have "trace (afterFailure sys d lg (int k) w') = trace w @ failedAttempts ?E d lg (Suc k)"
      by (simp add: trace_afterFailure failedAttempts_def)
    moreover from l have "int k < retries"
      by simp
    ultimately show ?thesis
      using l fails r by blast
  qed
qed

subsection \<open>The path of the mirror\<close>

lemma Split_Nil: "Split [] sep = [[]]"
  by (subst Split.simps) simp

lemma Split_sep_Cons: "Split (sep # s) sep = [] # Split s sep"
  by (subst Split.simps) simp

lemma Split_other_Cons:
  "x \<noteq> sep \<Longrightarrow> Split (x # s) sep = (x # hd (Split s sep)) # tl (Split s sep)"
  by (subst Split.simps, subst (2 3) Split.simps) simp

lemma Split_not_Nil: "Split s sep \<noteq> []"
  by (subst Split.simps) simp

lemma Split_append_sep: "Split (a @ sep # b) sep = Split a sep @ Split b sep"
proof (induction a)
  case Nil
  show ?case by (simp add: Split_Nil Split_sep_Cons)
next
  case (Cons x a)
  show ?case
  proof (cases "x = sep")
    case True
    with Cons show ?thesis by (simp add: Split_sep_Cons)
  next
    case False
    with Cons show ?thesis by (simp add: Split_other_Cons Split_not_Nil)
  qed
qed

lemma strings_Join_Cons: "es \<noteq> [] \<Longrightarrow> strings_Join (e # es) sep = e @ sep @ strings_Join es sep"
  by (cases es) simp_all

lemma strings_Join_append:
  "xs \<noteq> [] \<Longrightarrow> ys \<noteq> [] \<Longrightarrow>
   strings_Join (xs @ ys) sep = strings_Join xs sep @ sep @ strings_Join ys sep"
proof (induction xs)
  case Nil
  then show ?case by simp
next
  case (Cons x xs)
  then show ?case
    by (cases "xs = []") (simp_all add: strings_Join_Cons)
qed

lemma strings_Join_Split: "strings_Join (Split s sep) [sep] = s"
proof (induction s)
  case Nil
  show ?case by (simp add: Split_Nil)
next
  case (Cons x s)
  obtain h t where ht: "Split s sep = h # t"
    using Split_not_Nil [of s sep] by (cases "Split s sep") auto
  show ?case
  proof (cases "x = sep")
    case True
    with Cons show ?thesis
      by (simp add: Split_sep_Cons strings_Join_Cons Split_not_Nil)
  next
    case False
    with Cons ht show ?thesis
      by (cases "t = []") (simp_all add: Split_other_Cons strings_Join_Cons)
  qed
qed

lemma cleanElems_plain:
  "list_all plain es \<Longrightarrow> cleanElems rooted es kept = kept @ es"
  by (induction es arbitrary: kept) (auto simp: plain_def)

lemma filepath_Join_plain:
  assumes "plainPath d" and "plainPath name"
  shows "filepath_Join [slash # d, name] = slash # d @ ''/'' @ name"
proof -
  have name: "name \<noteq> []"
    using assms(2) by (auto simp: plainPath_def Split_Nil plain_def)
  have joined: "strings_Join [slash # d, name] ''/'' = slash # d @ slash # name"
    by (simp add: slash_def)
  have split: "Split (slash # d @ slash # name) slash = [] # Split d slash @ Split name slash"
    by (simp add: Split_sep_Cons Split_append_sep)
  have elems: "cleanElems True (Split d slash @ Split name slash) [] =
                 Split d slash @ Split name slash"
    using assms by (simp add: cleanElems_plain plainPath_def)
  have "strings_Join (Split d slash @ Split name slash) [slash] = d @ slash # name"
    by (simp add: strings_Join_append Split_not_Nil strings_Join_Split)
  then have out: "strings_Join (Split d slash @ Split name slash) ''/'' = d @ slash # name"
    by (simp add: slash_def)
  have "filepath_Clean (slash # d @ slash # name) = slash # d @ slash # name"
    by (simp add: filepath_Clean_def split elems out Let_def) (simp add: slash_def)
  with joined show ?thesis
    by (simp add: slash_def)
qed

lemma sim_path: "repoCachePath simClient ''org/repo'' = ''/tmp/gitcache/org/repo.git''"
  by code_simp

text \<open>
  C5, as amended. For a cache root that is an absolute path of plain elements and a
  repository full name of plain elements, the mirror is at
  \<open><cache root>/<repository full name>.git\<close>: the full name as the relative path under the
  cache root, followed by the suffix \<open>.git\<close>. That path lies within the cache root; it is
  the target of the mirror clone and the directory the fetch runs in.
\<close>

theorem mirror_path_has_git_suffix:
  assumes "cacheDir c = slash # d" and "plainPath d" and "plainPath repoFullName"
  shows "repoCachePath c repoFullName = cacheDir c @ ''/'' @ repoFullName @ ''.git'' \<and>
         within (cacheDir c) (repoCachePath c repoFullName) \<and>
         mirrorCloneCmd c base repoFullName =
           EvExec (gitPath c) []
             [''clone'', ''--mirror'', base @ ''/'' @ repoFullName,
              cacheDir c @ ''/'' @ repoFullName @ ''.git''] \<and>
         fetchCmd c repoFullName =
           EvExec (gitPath c) (cacheDir c @ ''/'' @ repoFullName @ ''.git'') [''fetch'']"
proof -
  have p: "repoCachePath c repoFullName = cacheDir c @ ''/'' @ repoFullName @ ''.git''"
    using filepath_Join_plain [OF assms(2,3)] assms(1)
    by (simp add: repoCachePath_def)
  then show ?thesis
    by (simp add: within_def mirrorCloneCmd_def fetchCmd_def remoteOf_def)
qed

theorem mirror_path_has_git_suffix_witness:
  "cacheDir simClient = slash # ''tmp/gitcache'' \<and> plainPath ''tmp/gitcache'' \<and>
   plainPath ''org/repo'' \<and>
   repoCachePath simClient ''org/repo'' = ''/tmp/gitcache/org/repo.git'' \<and>
   within (cacheDir simClient) (repoCachePath simClient ''org/repo'')"
proof -
  have a: "cacheDir simClient = slash # ''tmp/gitcache''"
    by (simp add: simClient_def slash_def)
  have b: "plainPath ''tmp/gitcache''" and c: "plainPath ''org/repo''"
    by code_simp+
  have d: "cacheDir simClient @ ''/'' @ ''org/repo'' @ ''.git'' = ''/tmp/gitcache/org/repo.git''"
    by (simp add: simClient_def)
  note r = mirror_path_has_git_suffix [OF a b c, of "''https://github.com''"]
  from r d have p: "repoCachePath simClient ''org/repo'' = ''/tmp/gitcache/org/repo.git''"
    by simp
  from r have q: "within (cacheDir simClient) (repoCachePath simClient ''org/repo'')"
    by (rule conjunct1 [OF conjunct2])
  from a b c p q show ?thesis
    by (intro conjI)
qed

text \<open>
  C5 as stated fails: the mirror of \<open>org/repo\<close> under the cache root \<open>/tmp/gitcache\<close> is
  \<open>/tmp/gitcache/org/repo.git\<close>, not \<open>/tmp/gitcache/org/repo\<close>.
\<close>

theorem mirror_path_counterexample:
  "repoCachePath simClient ''org/repo'' = ''/tmp/gitcache/org/repo.git'' \<and>
   repoCachePath simClient ''org/repo'' \<noteq> cacheDir simClient @ ''/'' @ ''org/repo''"
  by (simp add: sim_path)

subsection \<open>Clone\<close>

lemma filter_failedAttempts:
  assumes "\<And>j. \<not> P (retryWarning d lg j)" and "\<not> P (EvSleep d)"
  shows "filter P (failedAttempts ev d lg k) = (if P ev then replicate k ev else [])"
  using assms
  by (induction k) (simp_all add: failedAttempts_def replicate_append_same)

lemma exec_failedAttempts:
  "filter is_exec (failedAttempts (EvExec p dir args) d lg k) = replicate k (EvExec p dir args)"
  by (simp add: filter_failedAttempts retryWarning_def)

lemma remove_failedAttempts:
  "filter is_remove (failedAttempts (EvExec p dir args) d lg k) = []"
  by (simp add: filter_failedAttempts retryWarning_def)

lemma runGitCommand_locks:
  "runGitCommand sys (c\<lparr>mu := a, repoLocks := b\<rparr>) = runGitCommand sys c"
  by (intro ext) (simp add: runGitCommand_def)

lemma lockRepo_unlocked:
  "unlocked c name \<Longrightarrow>
   lockRepo c name = Returns (c\<lparr>mu := False, repoLocks := (repoLocks c)(name \<mapsto> True)\<rparr>)"
  by (cases "repoLocks c name") (auto simp: lockRepo_def unlocked_def Let_def)

lemma unlockRepo_locked:
  "\<not> mu c \<Longrightarrow> repoLocks c name = Some True \<Longrightarrow>
   unlockRepo c name = Returns (c\<lparr>repoLocks := (repoLocks c)(name \<mapsto> False)\<rparr>)"
  by (simp add: unlockRepo_def)

lemma repoCachePath_locks:
  "repoCachePath (c\<lparr>mu := a, repoLocks := b\<rparr>) name = repoCachePath c name"
  by (simp add: repoCachePath_def)

lemma cloneLogger_locks:
  "cloneLogger (c\<lparr>mu := a, repoLocks := b\<rparr>) base name = cloneLogger c base name"
  by (simp add: cloneLogger_def repoCachePath_locks)

lemma Clone_updateMirror_locks:
  "Clone_updateMirror sys (c\<lparr>mu := a, repoLocks := b\<rparr>) ctx base name w =
   Clone_updateMirror sys c ctx base name w"
  by (simp add: Clone_updateMirror_def repoCachePath_locks cloneLogger_locks runGitCommand_locks
      cong: if_cong)

lemma Clone_checkout_locks:
  "Clone_checkout sys (c\<lparr>mu := a, repoLocks := b\<rparr>) ctx base name dest w =
   Clone_checkout sys c ctx base name dest w"
  by (simp add: Clone_checkout_def repoCachePath_locks cloneLogger_locks runGitCommand_locks
      cong: if_cong)

lemma Clone_body_locks:
  "Clone_body sys (c\<lparr>mu := a, repoLocks := b\<rparr>) ctx base name dest w =
   Clone_body sys c ctx base name dest w"
  by (simp add: Clone_body_def Clone_updateMirror_locks Clone_checkout_locks
      split: prod.splits option.splits)

lemma Clone_unlocked:
  assumes "unlocked c name"
  shows "Clone sys c ctx base name dest w =
           Returns (fst (Clone_body sys c ctx base name dest w),
                    c\<lparr>mu := False, repoLocks := (repoLocks c)(name \<mapsto> False)\<rparr>,
                    snd (Clone_body sys c ctx base name dest w))"
proof -
  let ?c1 = "c\<lparr>mu := False, repoLocks := (repoLocks c)(name \<mapsto> True)\<rparr>"
  have ul: "unlockRepo ?c1 name = Returns (c\<lparr>mu := False, repoLocks := (repoLocks c)(name \<mapsto> False)\<rparr>)"
    by (simp add: unlockRepo_locked)
  show ?thesis
    by (simp add: Clone_def lockRepo_unlocked [OF assms] Clone_body_locks ul split: prod.splits)
qed

lemma world_simps [simp]:
  "trace (emit ev w) = trace w @ [ev]"
  "ext (emit ev w) = ext w"
  "trace (logAt lvl lg msg fs w) = trace w @ [EvLog lvl msg (lg @ fs)]"
  "ext (logAt lvl lg msg fs w) = ext w"
  by (simp_all add: emit_def logAt_def)

lemma runGitCommand_result:
  "fst (runGitCommand sys c ctx dir args w) = fst (sys_exec sys ctx (gitPath c) dir args (ext w))"
  "ext (snd (runGitCommand sys c ctx dir args w)) = snd (sys_exec sys ctx (gitPath c) dir args (ext w))"
  by (simp_all add: runGitCommand_def split: prod.splits)

text \<open>The mirror is absent: the retried mirror clone.\<close>

lemma updateMirror_absent:
  assumes stat: "IsNotExist (sys_Stat sys (repoCachePath c name) (ext w))"
    and mk: "sys_MkdirAll sys (filepath_Dir (repoCachePath c name)) (ext w) = (merr, e2)"
    and ok: "merr = None \<or> IsExist merr"
  obtains k err w' evs where "k < 3"
    and "Clone_updateMirror sys c ctx base name w = (err, w')"
    and "trace w' = trace w @ evs"
    and "filter is_exec evs = replicate (Suc k) (mirrorCloneCmd c base name)"
    and "filter is_remove evs = []"
    and "snd (fst (sys_exec sys ctx (gitPath c) []
           [''clone'', ''--mirror'', remoteOf base name, repoCachePath c name] e2)) = None \<longrightarrow>
         k = 0"
proof -
  let ?P = "repoCachePath c name"
  let ?lg = "cloneLogger c base name"
  let ?args = "[''clone'', ''--mirror'', remoteOf base name, ?P]"
  let ?f = "runGitCommand sys c ctx [] ?args"
  let ?E = "EvExec (gitPath c) [] ?args"
  define w0 where "w0 = emit (EvStat ?P) w"
  define w1 where "w1 = logAt InfoLevel ?lg (Sprintf ''cloning %s for the first time'' [ArgStr name]) [] w0"
  define w2 where "w2 = emit (EvMkdirAll (filepath_Dir ?P)) (w1\<lparr>ext := e2\<rparr>)"
  have s1: "os_Stat sys ?P w = (sys_Stat sys ?P (ext w), w0)"
    by (simp add: os_Stat_def w0_def)
  have s2: "os_MkdirAll sys (filepath_Dir ?P) w1 = (merr, w2)"
    by (simp add: os_MkdirAll_def w2_def w1_def w0_def mk)
  have tr2: "trace w2 = trace w @ [EvStat ?P,
      EvLog InfoLevel (Sprintf ''cloning %s for the first time'' [ArgStr name]) ?lg,
      EvMkdirAll (filepath_Dir ?P)]"
    by (simp add: w2_def w1_def w0_def)
  have ext2: "ext w2 = e2"
    by (simp add: w2_def)
  from ok have ok': "\<not> (merr \<noteq> None \<and> \<not> IsExist merr)"
    by auto
  from stat have stat': "\<not> (sys_Stat sys ?P (ext w) \<noteq> None \<and> \<not> IsNotExist (sys_Stat sys ?P (ext w)))"
    by simp
  have um: "Clone_updateMirror sys c ctx base name w =
      (case retryCommand sys 3 Second ?lg ?f w2 of
         ((out, Some e), w3) \<Rightarrow>
           (Some (Errorf ''failed to clone from remote: %v'' e),
            logAt ErrorLevel ?lg (Msg ''failed to clone from remote'')
              [zap_String ''out'' out, zap_Error e] w3)
       | ((out, None), w3) \<Rightarrow> (None, w3))"
    unfolding Clone_updateMirror_def Let_def s1 prod.case w1_def [symmetric] s2
    using stat ok' stat' by (simp only: if_False if_True)
  from retry_run_trace [of 3 sys Second ?lg c ctx "[]" ?args w2]
  obtain k out err w3 where k: "k < 3"
    and r: "retryCommand sys 3 Second ?lg ?f w2 = ((out, err), w3)"
    and fails: "\<forall>j<k. snd (fst (?f (attemptStart sys Second ?lg ?f w2 j))) \<noteq> None"
    and tr: "err = None \<and> trace w3 = trace w2 @ failedAttempts ?E Second ?lg k @ [?E] \<or>
             err \<noteq> None \<and> int k + 1 = 3 \<and> trace w3 = trace w2 @ failedAttempts ?E Second ?lg (Suc k)"
    by auto
  have first: "snd (fst (sys_exec sys ctx (gitPath c) [] ?args e2)) = None \<longrightarrow> k = 0"
  proof
    assume a: "snd (fst (sys_exec sys ctx (gitPath c) [] ?args e2)) = None"
    show "k = 0"
    proof (rule ccontr)
      assume "k \<noteq> 0"
      then have "0 < k" by simp
      with fails have "snd (fst (?f (attemptStart sys Second ?lg ?f w2 0))) \<noteq> None"
        by blast
      with a show False
        by (simp add: attemptStart_def runGitCommand_result ext2)
    qed
  qed
  show ?thesis
  proof (cases err)
    case None
    with tr have t3: "trace w3 = trace w2 @ failedAttempts ?E Second ?lg k @ [?E]"
      by simp
    from None r um have res: "Clone_updateMirror sys c ctx base name w = (None, w3)"
      by simp
    let ?evs = "[EvStat ?P,
      EvLog InfoLevel (Sprintf ''cloning %s for the first time'' [ArgStr name]) ?lg,
      EvMkdirAll (filepath_Dir ?P)] @ failedAttempts ?E Second ?lg k @ [?E]"
    have t: "trace w3 = trace w @ ?evs"
      by (simp add: t3 tr2)
    have A: "filter is_exec ?evs = replicate (Suc k) (mirrorCloneCmd c base name)"
      by (simp add: exec_failedAttempts mirrorCloneCmd_def replicate_append_same)
    have B: "filter is_remove ?evs = []"
      by (simp add: remove_failedAttempts)
    from k res t A B first show ?thesis
      by (rule that)
  next
    case (Some e)
    with tr have t3: "trace w3 = trace w2 @ failedAttempts ?E Second ?lg (Suc k)"
      by simp
    let ?w4 = "logAt ErrorLevel ?lg (Msg ''failed to clone from remote'')
              [zap_String ''out'' out, zap_Error e] w3"
    from Some r um have res: "Clone_updateMirror sys c ctx base name w =
        (Some (Errorf ''failed to clone from remote: %v'' e), ?w4)"
      by simp
    let ?evs = "[EvStat ?P,
      EvLog InfoLevel (Sprintf ''cloning %s for the first time'' [ArgStr name]) ?lg,
      EvMkdirAll (filepath_Dir ?P)] @ failedAttempts ?E Second ?lg (Suc k) @
      [EvLog ErrorLevel (Msg ''failed to clone from remote'')
         (?lg @ [zap_String ''out'' out, zap_Error e])]"
    have t: "trace ?w4 = trace w @ ?evs"
      by (simp add: t3 tr2)
    have A: "filter is_exec ?evs = replicate (Suc k) (mirrorCloneCmd c base name)"
      by (simp add: exec_failedAttempts mirrorCloneCmd_def)
    have B: "filter is_remove ?evs = []"
      by (simp add: remove_failedAttempts)
    from k res t A B first show ?thesis
      by (rule that)
  qed
qed

text \<open>The mirror is present: the retried fetch.\<close>

lemma updateMirror_present:
  assumes stat: "sys_Stat sys (repoCachePath c name) (ext w) = None"
  obtains k err w' evs where "k < 3"
    and "Clone_updateMirror sys c ctx base name w = (err, w')"
    and "trace w' = trace w @ evs"
    and "filter is_exec evs = replicate (Suc k) (fetchCmd c name)"
    and "filter is_remove evs = []"
    and "snd (fst (sys_exec sys ctx (gitPath c) (repoCachePath c name) [''fetch''] (ext w))) = None \<longrightarrow>
         k = 0"
proof -
  let ?P = "repoCachePath c name"
  let ?lg = "cloneLogger c base name"
  let ?f = "runGitCommand sys c ctx ?P [''fetch'']"
  let ?E = "EvExec (gitPath c) ?P [''fetch'']"
  let ?info = "EvLog InfoLevel (Sprintf ''fetching %s to update the cache'' [ArgStr name]) (logger c)"
  define w0 where "w0 = emit (EvStat ?P) w"
  define w1 where "w1 = logAt InfoLevel (logger c)
    (Sprintf ''fetching %s to update the cache'' [ArgStr name]) [] w0"
  have s1: "os_Stat sys ?P w = (None, w0)"
    by (simp add: os_Stat_def w0_def stat)
  have tr1: "trace w1 = trace w @ [EvStat ?P, ?info]"
    by (simp add: w1_def w0_def)
  have ext1: "ext w1 = ext w"
    by (simp add: w1_def w0_def)
  have um: "Clone_updateMirror sys c ctx base name w =
      (case retryCommand sys 3 Second (logger c) ?f w1 of
         ((out, Some e), w2) \<Rightarrow>
           (Some (Errorf ''failed to fetch: %v'' e),
            logAt ErrorLevel ?lg (Msg ''failed to fetch from remote'')
              [zap_String ''out'' out, zap_Error e] w2)
       | ((out, None), w2) \<Rightarrow> (None, w2))"
    unfolding Clone_updateMirror_def Let_def s1 prod.case w1_def [symmetric]
    by simp
  from retry_run_trace [of 3 sys Second "logger c" c ctx ?P "[''fetch'']" w1]
  obtain k out err w2 where k: "k < 3"
    and r: "retryCommand sys 3 Second (logger c) ?f w1 = ((out, err), w2)"
    and fails: "\<forall>j<k. snd (fst (?f (attemptStart sys Second (logger c) ?f w1 j))) \<noteq> None"
    and tr: "err = None \<and> trace w2 = trace w1 @ failedAttempts ?E Second (logger c) k @ [?E] \<or>
             err \<noteq> None \<and> int k + 1 = 3 \<and>
               trace w2 = trace w1 @ failedAttempts ?E Second (logger c) (Suc k)"
    by auto
  have first: "snd (fst (sys_exec sys ctx (gitPath c) ?P [''fetch''] (ext w))) = None \<longrightarrow> k = 0"
  proof
    assume a: "snd (fst (sys_exec sys ctx (gitPath c) ?P [''fetch''] (ext w))) = None"
    show "k = 0"
    proof (rule ccontr)
      assume "k \<noteq> 0"
      then have "0 < k" by simp
      with fails have "snd (fst (?f (attemptStart sys Second (logger c) ?f w1 0))) \<noteq> None"
        by blast
      with a show False
        by (simp add: attemptStart_def runGitCommand_result ext1)
    qed
  qed
  show ?thesis
  proof (cases err)
    case None
    with tr have t2: "trace w2 = trace w1 @ failedAttempts ?E Second (logger c) k @ [?E]"
      by simp
    from None r um have res: "Clone_updateMirror sys c ctx base name w = (None, w2)"
      by simp
    let ?evs = "[EvStat ?P, ?info] @ failedAttempts ?E Second (logger c) k @ [?E]"
    have t: "trace w2 = trace w @ ?evs"
      by (simp add: t2 tr1)
    have A: "filter is_exec ?evs = replicate (Suc k) (fetchCmd c name)"
      by (simp add: exec_failedAttempts fetchCmd_def replicate_append_same)
    have B: "filter is_remove ?evs = []"
      by (simp add: remove_failedAttempts)
    from k res t A B first show ?thesis
      by (rule that)
  next
    case (Some e)
    with tr have t2: "trace w2 = trace w1 @ failedAttempts ?E Second (logger c) (Suc k)"
      by simp
    let ?w3 = "logAt ErrorLevel ?lg (Msg ''failed to fetch from remote'')
              [zap_String ''out'' out, zap_Error e] w2"
    from Some r um have res: "Clone_updateMirror sys c ctx base name w =
        (Some (Errorf ''failed to fetch: %v'' e), ?w3)"
      by simp
    let ?evs = "[EvStat ?P, ?info] @ failedAttempts ?E Second (logger c) (Suc k) @
      [EvLog ErrorLevel (Msg ''failed to fetch from remote'')
         (?lg @ [zap_String ''out'' out, zap_Error e])]"
    have t: "trace ?w3 = trace w @ ?evs"
      by (simp add: t2 tr1)
    have A: "filter is_exec ?evs = replicate (Suc k) (fetchCmd c name)"
      by (simp add: exec_failedAttempts fetchCmd_def)
    have B: "filter is_remove ?evs = []"
      by (simp add: remove_failedAttempts)
    from k res t A B first show ?thesis
      by (rule that)
  qed
qed

text \<open>The checkout runs at most one git command, the local clone, and removes nothing.\<close>

lemma checkout_events:
  obtains r w' evs where "Clone_checkout sys c ctx base name dest w = (r, w')"
    and "trace w' = trace w @ evs"
    and "filter is_exec evs = [] \<or> filter is_exec evs = [localCloneCmd c name dest]"
    and "filter is_remove evs = []"
proof -
  let ?P = "repoCachePath c name"
  obtain merr e1 where mk: "sys_MkdirAll sys dest (ext w) = (merr, e1)"
    by (metis surj_pair)
  define w1 where "w1 = emit (EvMkdirAll dest) (w\<lparr>ext := e1\<rparr>)"
  have s1: "os_MkdirAll sys dest w = (merr, w1)"
    by (simp add: os_MkdirAll_def mk w1_def)
  have tr1: "trace w1 = trace w @ [EvMkdirAll dest]"
    by (simp add: w1_def)
  obtain out cerr e2 where ex: "sys_exec sys ctx (gitPath c) [] [''clone'', ?P, dest] (ext w1) = ((out, cerr), e2)"
    by (metis surj_pair)
  define w2 where "w2 = emit (localCloneCmd c name dest) (w1\<lparr>ext := e2\<rparr>)"
  have s2: "runGitCommand sys c ctx [] [''clone'', ?P, dest] w1 = ((out, cerr), w2)"
    by (simp add: runGitCommand_def ex w2_def localCloneCmd_def)
  have tr2: "trace w2 = trace w @ [EvMkdirAll dest, localCloneCmd c name dest]"
    by (simp add: w2_def tr1)
  obtain serr e3 where su: "sys_SetUser sys ctx dest (username c) (email c) (ext w2) = (serr, e3)"
    by (metis surj_pair)
  define w3 where "w3 = emit (EvSetUser dest (username c) (email c)) (w2\<lparr>ext := e3\<rparr>)"
  have s3: "SetUser sys (NewRepo name dest (gitPath c) (remoteOf base name) (logger c)) ctx
              (username c) (email c) w2 = (serr, w3)"
    by (simp add: SetUser_def NewRepo_def su w3_def)
  have tr3: "trace w3 = trace w @ [EvMkdirAll dest, localCloneCmd c name dest,
                                   EvSetUser dest (username c) (email c)]"
    by (simp add: w3_def tr2)
  have co: "Clone_checkout sys c ctx base name dest w =
      (if merr \<noteq> None then ((None, merr), w1)
       else case cerr of
         Some e \<Rightarrow>
           ((None, Some (Errorf ''failed to clone from local: %v'' e)),
            logAt ErrorLevel (cloneLogger c base name) (Msg ''failed to clone from local'')
              [zap_String ''out'' out, zap_String ''repo-path'' dest, zap_Error e] w2)
       | None \<Rightarrow>
           if username c \<noteq> [] \<or> email c \<noteq> [] then
             (case serr of
                Some e \<Rightarrow> ((None, Some (Errorf ''failed to set user: %v'' e)), w3)
              | None \<Rightarrow>
                  ((Some (NewRepo name dest (gitPath c) (remoteOf base name) (logger c)), None), w3))
           else ((Some (NewRepo name dest (gitPath c) (remoteOf base name) (logger c)), None), w2))"
    unfolding Clone_checkout_def Let_def s1 prod.case s2 s3
    by (simp split: option.splits)
  show ?thesis
  proof (cases "merr \<noteq> None")
    case True
    with co have "Clone_checkout sys c ctx base name dest w = ((None, merr), w1)"
      by simp
    then show ?thesis
      using tr1 by (rule that) simp_all
  next
    case False
    note nomerr = this
    show ?thesis
    proof (cases cerr)
      case (Some e)
      let ?w = "logAt ErrorLevel (cloneLogger c base name) (Msg ''failed to clone from local'')
              [zap_String ''out'' out, zap_String ''repo-path'' dest, zap_Error e] w2"
      from co nomerr Some have "Clone_checkout sys c ctx base name dest w =
          ((None, Some (Errorf ''failed to clone from local: %v'' e)), ?w)"
        by simp
      moreover have "trace ?w = trace w @ [EvMkdirAll dest, localCloneCmd c name dest,
          EvLog ErrorLevel (Msg ''failed to clone from local'')
            (cloneLogger c base name @
             [zap_String ''out'' out, zap_String ''repo-path'' dest, zap_Error e])]"
        by (simp add: tr2)
      ultimately show ?thesis
        by (rule that) (simp_all add: localCloneCmd_def)
    next
      case None
      show ?thesis
      proof (cases "username c \<noteq> [] \<or> email c \<noteq> []")
        case True
        with co nomerr None have "\<exists>r. Clone_checkout sys c ctx base name dest w = (r, w3)"
          by (cases serr) simp_all
        then obtain r where "Clone_checkout sys c ctx base name dest w = (r, w3)" ..
        then show ?thesis
          using tr3 by (rule that) (simp_all add: localCloneCmd_def)
      next
        case False
        with co nomerr None have "\<exists>r. Clone_checkout sys c ctx base name dest w = (r, w2)"
          by simp
        then obtain r where "Clone_checkout sys c ctx base name dest w = (r, w2)" ..
        then show ?thesis
          using tr2 by (rule that) (simp_all add: localCloneCmd_def)
      qed
    qed
  qed
qed

lemma mirror_clone_is_exec: "is_mirror_clone ev \<Longrightarrow> is_exec ev"
  by (induction ev rule: is_mirror_clone.induct) simp_all

lemma fetch_is_exec: "is_fetch ev \<Longrightarrow> is_exec ev"
  by (induction ev rule: is_fetch.induct) simp_all

lemma local_clone_is_exec: "is_local_clone ev \<Longrightarrow> is_exec ev"
  by (induction ev rule: is_local_clone.induct) simp_all

lemma filter_exec_refine:
  assumes "\<And>ev. P ev \<Longrightarrow> is_exec ev"
  shows "filter P evs = filter P (filter is_exec evs)"
  using assms by (induction evs) auto

lemma filter_commands:
  assumes sub: "\<And>ev. P ev \<Longrightarrow> is_exec ev"
    and ex: "filter is_exec evs = replicate n cmd \<or> filter is_exec evs = replicate n cmd @ [other]"
    and other: "\<not> P other"
  shows "filter P evs = (if P cmd then replicate n cmd else [])"
proof -
  have "filter P evs = filter P (filter is_exec evs)"
    using sub by (rule filter_exec_refine)
  also from ex other have "filter P (filter is_exec evs) = (if P cmd then replicate n cmd else [])"
    by (elim disjE) (simp_all del: filter_filter)
  finally show ?thesis .
qed

lemma added_append: "trace w' = trace w @ evs \<Longrightarrow> added w w' = evs"
  by (simp add: added_def)

lemma kinds_of_commands [simp]:
  "is_mirror_clone (mirrorCloneCmd c base name)"
  "\<not> is_fetch (mirrorCloneCmd c base name)"
  "\<not> is_local_clone (mirrorCloneCmd c base name)"
  "is_fetch (fetchCmd c name)"
  "\<not> is_mirror_clone (fetchCmd c name)"
  "\<not> is_local_clone (fetchCmd c name)"
  "is_local_clone (localCloneCmd c name dest)"
  "\<not> is_mirror_clone (localCloneCmd c name dest)"
  "\<not> is_fetch (localCloneCmd c name dest)"
  by (simp_all add: mirrorCloneCmd_def fetchCmd_def localCloneCmd_def)

text \<open>
  The body of \<open>Clone\<close>: the git commands it runs are the runs of one update command
  \<open>cmd\<close>, then at most the local clone.\<close>

lemma body_commands:
  assumes um: "Clone_updateMirror sys c ctx base name w = (err, w1)"
    and tr: "trace w1 = trace w @ evs1"
    and ex: "filter is_exec evs1 = replicate n cmd"
    and rm: "filter is_remove evs1 = []"
  obtains r w' evs where "Clone_body sys c ctx base name dest w = (r, w')"
    and "trace w' = trace w @ evs"
    and "filter is_exec evs = replicate n cmd \<or>
         filter is_exec evs = replicate n cmd @ [localCloneCmd c name dest]"
    and "filter is_remove evs = []"
proof (cases err)
  case (Some e)
  with um have "Clone_body sys c ctx base name dest w = ((None, Some e), w1)"
    by (simp add: Clone_body_def)
  then show ?thesis
    using tr by (rule that) (simp_all add: ex rm)
next
  case None
  show ?thesis
  proof (rule checkout_events [of sys c ctx base name dest w1])
    fix r w' evs2
    assume co: "Clone_checkout sys c ctx base name dest w1 = (r, w')"
      and tr2: "trace w' = trace w1 @ evs2"
      and ex2: "filter is_exec evs2 = [] \<or> filter is_exec evs2 = [localCloneCmd c name dest]"
      and rm2: "filter is_remove evs2 = []"
    from um None co have "Clone_body sys c ctx base name dest w = (r, w')"
      by (simp add: Clone_body_def)
    moreover from tr tr2 have "trace w' = trace w @ evs1 @ evs2"
      by simp
    moreover from ex ex2 have "filter is_exec (evs1 @ evs2) = replicate n cmd \<or>
         filter is_exec (evs1 @ evs2) = replicate n cmd @ [localCloneCmd c name dest]"
      by auto
    moreover from rm rm2 have "filter is_remove (evs1 @ evs2) = []"
      by simp
    ultimately show ?thesis
      by (rule that)
  qed
qed

lemma Clone_absent:
  assumes free: "unlocked c name"
    and stat: "IsNotExist (sys_Stat sys (repoCachePath c name) (ext w))"
    and mk: "sys_MkdirAll sys (filepath_Dir (repoCachePath c name)) (ext w) = (merr, e2)"
    and ok: "merr = None \<or> IsExist merr"
  shows "\<exists>n r c' w'. Clone sys c ctx base name dest w = Returns (r, c', w') \<and> 1 \<le> n \<and> n \<le> 3 \<and>
          filter is_mirror_clone (added w w') = replicate n (mirrorCloneCmd c base name) \<and>
          filter is_fetch (added w w') = [] \<and>
          (snd (fst (sys_exec sys ctx (gitPath c) []
              [''clone'', ''--mirror'', remoteOf base name, repoCachePath c name] e2)) = None \<longrightarrow>
           n = 1)"
proof (rule updateMirror_absent [OF stat mk ok, of ctx base])
  fix k err w1 evs1
  assume k: "k < 3"
    and um: "Clone_updateMirror sys c ctx base name w = (err, w1)"
    and tr: "trace w1 = trace w @ evs1"
    and ex: "filter is_exec evs1 = replicate (Suc k) (mirrorCloneCmd c base name)"
    and rm: "filter is_remove evs1 = []"
    and first: "snd (fst (sys_exec sys ctx (gitPath c) []
           [''clone'', ''--mirror'', remoteOf base name, repoCachePath c name] e2)) = None \<longrightarrow>
         k = 0"
  show ?thesis
  proof (rule body_commands [OF um tr ex rm, of dest])
    fix r w' evs
    assume body: "Clone_body sys c ctx base name dest w = (r, w')"
      and tr': "trace w' = trace w @ evs"
      and ex': "filter is_exec evs = replicate (Suc k) (mirrorCloneCmd c base name) \<or>
         filter is_exec evs = replicate (Suc k) (mirrorCloneCmd c base name) @ [localCloneCmd c name dest]"
    let ?c' = "c\<lparr>mu := False, repoLocks := (repoLocks c)(name \<mapsto> False)\<rparr>"
    have ret: "Clone sys c ctx base name dest w = Returns (r, ?c', w')"
      by (simp add: Clone_unlocked [OF free] body)
    have ad: "added w w' = evs"
      using tr' by (rule added_append)
    have mc: "filter is_mirror_clone evs = replicate (Suc k) (mirrorCloneCmd c base name)"
      by (simp add: filter_commands [OF mirror_clone_is_exec ex'])
    have fe: "filter is_fetch evs = []"
      by (simp add: filter_commands [OF fetch_is_exec ex'])
    from first have "snd (fst (sys_exec sys ctx (gitPath c) []
           [''clone'', ''--mirror'', remoteOf base name, repoCachePath c name] e2)) = None \<longrightarrow>
         Suc k = 1"
      by simp
    with ret k mc fe ad
    have "Clone sys c ctx base name dest w = Returns (r, ?c', w') \<and> 1 \<le> Suc k \<and> Suc k \<le> 3 \<and>
          filter is_mirror_clone (added w w') = replicate (Suc k) (mirrorCloneCmd c base name) \<and>
          filter is_fetch (added w w') = [] \<and>
          (snd (fst (sys_exec sys ctx (gitPath c) []
              [''clone'', ''--mirror'', remoteOf base name, repoCachePath c name] e2)) = None \<longrightarrow>
           Suc k = 1)"
      by simp
    then show ?thesis
      by (intro exI)
  qed
qed

lemma Clone_present:
  assumes free: "unlocked c name"
    and stat: "sys_Stat sys (repoCachePath c name) (ext w) = None"
  shows "\<exists>n r c' w'. Clone sys c ctx base name dest w = Returns (r, c', w') \<and> 1 \<le> n \<and> n \<le> 3 \<and>
          filter is_fetch (added w w') = replicate n (fetchCmd c name) \<and>
          filter is_mirror_clone (added w w') = [] \<and>
          (snd (fst (sys_exec sys ctx (gitPath c) (repoCachePath c name) [''fetch''] (ext w))) = None \<longrightarrow>
           n = 1)"
proof (rule updateMirror_present [OF stat, of ctx base])
  fix k err w1 evs1
  assume k: "k < 3"
    and um: "Clone_updateMirror sys c ctx base name w = (err, w1)"
    and tr: "trace w1 = trace w @ evs1"
    and ex: "filter is_exec evs1 = replicate (Suc k) (fetchCmd c name)"
    and rm: "filter is_remove evs1 = []"
    and first: "snd (fst (sys_exec sys ctx (gitPath c) (repoCachePath c name) [''fetch''] (ext w))) = None \<longrightarrow>
         k = 0"
  show ?thesis
  proof (rule body_commands [OF um tr ex rm, of dest])
    fix r w' evs
    assume body: "Clone_body sys c ctx base name dest w = (r, w')"
      and tr': "trace w' = trace w @ evs"
      and ex': "filter is_exec evs = replicate (Suc k) (fetchCmd c name) \<or>
         filter is_exec evs = replicate (Suc k) (fetchCmd c name) @ [localCloneCmd c name dest]"
    let ?c' = "c\<lparr>mu := False, repoLocks := (repoLocks c)(name \<mapsto> False)\<rparr>"
    have ret: "Clone sys c ctx base name dest w = Returns (r, ?c', w')"
      by (simp add: Clone_unlocked [OF free] body)
    have ad: "added w w' = evs"
      using tr' by (rule added_append)
    have fe: "filter is_fetch evs = replicate (Suc k) (fetchCmd c name)"
      by (simp add: filter_commands [OF fetch_is_exec ex'])
    have mc: "filter is_mirror_clone evs = []"
      by (simp add: filter_commands [OF mirror_clone_is_exec ex'])
    from first have "snd (fst (sys_exec sys ctx (gitPath c) (repoCachePath c name) [''fetch''] (ext w))) = None \<longrightarrow>
         Suc k = 1"
      by simp
    with ret k mc fe ad
    have "Clone sys c ctx base name dest w = Returns (r, ?c', w') \<and> 1 \<le> Suc k \<and> Suc k \<le> 3 \<and>
          filter is_fetch (added w w') = replicate (Suc k) (fetchCmd c name) \<and>
          filter is_mirror_clone (added w w') = [] \<and>
          (snd (fst (sys_exec sys ctx (gitPath c) (repoCachePath c name) [''fetch''] (ext w))) = None \<longrightarrow>
           Suc k = 1)"
      by simp
    then show ?thesis
      by (intro exI)
  qed
qed

lemma Clean_removes:
  assumes cl: "Clean sys c w0 = (None, w)"
    and law: "\<forall>e e' p. sys_RemoveAll sys (cacheDir c) e = (None, e') \<and> within (cacheDir c) p \<longrightarrow>
                IsNotExist (sys_Stat sys p e')"
    and inside: "within (cacheDir c) p"
  shows "IsNotExist (sys_Stat sys p (ext w))"
proof -
  obtain err e' where rm: "sys_RemoveAll sys (cacheDir c) (ext w0) = (err, e')"
    by (metis surj_pair)
  with cl have "err = None" and "ext w = e'"
    by (auto simp: Clean_def os_RemoveAll_def)
  with rm law inside show ?thesis
    by blast
qed

lemma sim_removal_law:
  "\<forall>e e' p. sys_RemoveAll simSys d e = (None, e') \<and> within d p \<longrightarrow>
     IsNotExist (sys_Stat simSys p e')"
  by (auto simp: simSys_def sim_RemoveAll_def sim_Stat_def)

text \<open>
  C1, as amended. \<open>Clone\<close>, called with the mutexes of the repository free, returns, and:
  when \<open>os.Stat\<close> says the mirror path does not exist and the parent directory can be
  made, it runs the mirror clone through the retry wrapper, so between one and three
  times (once when the first run succeeds), and no fetch; when \<open>os.Stat\<close> finds the
  mirror path, it runs the fetch between one and three times (once when the first run
  succeeds) and no mirror clone; and after a \<open>Clean\<close> that removed the cache root, on an
  operating system where a removed tree leaves nothing within it, a \<open>Clone\<close> of a
  repository whose mirror path lies within the cache root runs the mirror clone again
  as for a repository never seen.
\<close>

theorem clone_when_absent_fetch_when_present:
  "(unlocked c name \<and> IsNotExist (sys_Stat sys (repoCachePath c name) (ext w)) \<and>
    sys_MkdirAll sys (filepath_Dir (repoCachePath c name)) (ext w) = (merr, e2) \<and>
    (merr = None \<or> IsExist merr) \<longrightarrow>
      (\<exists>n r c' w'. Clone sys c ctx base name dest w = Returns (r, c', w') \<and> 1 \<le> n \<and> n \<le> 3 \<and>
          filter is_mirror_clone (added w w') = replicate n (mirrorCloneCmd c base name) \<and>
          filter is_fetch (added w w') = [] \<and>
          (snd (fst (sys_exec sys ctx (gitPath c) []
              [''clone'', ''--mirror'', remoteOf base name, repoCachePath c name] e2)) = None \<longrightarrow>
           n = 1))) \<and>
   (unlocked c name \<and> sys_Stat sys (repoCachePath c name) (ext v) = None \<longrightarrow>
      (\<exists>n r c' v'. Clone sys c ctx base name dest v = Returns (r, c', v') \<and> 1 \<le> n \<and> n \<le> 3 \<and>
          filter is_fetch (added v v') = replicate n (fetchCmd c name) \<and>
          filter is_mirror_clone (added v v') = [] \<and>
          (snd (fst (sys_exec sys ctx (gitPath c) (repoCachePath c name) [''fetch''] (ext v))) = None \<longrightarrow>
           n = 1))) \<and>
   (unlocked c name \<and> Clean sys c u0 = (None, u) \<and>
    (\<forall>e e' p. sys_RemoveAll sys (cacheDir c) e = (None, e') \<and> within (cacheDir c) p \<longrightarrow>
       IsNotExist (sys_Stat sys p e')) \<and>
    within (cacheDir c) (repoCachePath c name) \<and>
    sys_MkdirAll sys (filepath_Dir (repoCachePath c name)) (ext u) = (uerr, e3) \<and>
    (uerr = None \<or> IsExist uerr) \<longrightarrow>
      (\<exists>n r c' u'. Clone sys c ctx base name dest u = Returns (r, c', u') \<and> 1 \<le> n \<and> n \<le> 3 \<and>
          filter is_mirror_clone (added u u') = replicate n (mirrorCloneCmd c base name) \<and>
          filter is_fetch (added u u') = [] \<and>
          (snd (fst (sys_exec sys ctx (gitPath c) []
              [''clone'', ''--mirror'', remoteOf base name, repoCachePath c name] e3)) = None \<longrightarrow>
           n = 1)))"
proof (intro conjI impI)
  assume "unlocked c name \<and> IsNotExist (sys_Stat sys (repoCachePath c name) (ext w)) \<and>
    sys_MkdirAll sys (filepath_Dir (repoCachePath c name)) (ext w) = (merr, e2) \<and>
    (merr = None \<or> IsExist merr)"
  then have "unlocked c name" and "IsNotExist (sys_Stat sys (repoCachePath c name) (ext w))"
    and "sys_MkdirAll sys (filepath_Dir (repoCachePath c name)) (ext w) = (merr, e2)"
    and "merr = None \<or> IsExist merr"
    by simp_all
  then show "\<exists>n r c' w'. Clone sys c ctx base name dest w = Returns (r, c', w') \<and> 1 \<le> n \<and> n \<le> 3 \<and>
          filter is_mirror_clone (added w w') = replicate n (mirrorCloneCmd c base name) \<and>
          filter is_fetch (added w w') = [] \<and>
          (snd (fst (sys_exec sys ctx (gitPath c) []
              [''clone'', ''--mirror'', remoteOf base name, repoCachePath c name] e2)) = None \<longrightarrow>
           n = 1)"
    by (rule Clone_absent)
next
  assume "unlocked c name \<and> sys_Stat sys (repoCachePath c name) (ext v) = None"
  then have "unlocked c name" and "sys_Stat sys (repoCachePath c name) (ext v) = None"
    by simp_all
  then show "\<exists>n r c' v'. Clone sys c ctx base name dest v = Returns (r, c', v') \<and> 1 \<le> n \<and> n \<le> 3 \<and>
          filter is_fetch (added v v') = replicate n (fetchCmd c name) \<and>
          filter is_mirror_clone (added v v') = [] \<and>
          (snd (fst (sys_exec sys ctx (gitPath c) (repoCachePath c name) [''fetch''] (ext v))) = None \<longrightarrow>
           n = 1)"
    by (rule Clone_present)
next
  assume h: "unlocked c name \<and> Clean sys c u0 = (None, u) \<and>
    (\<forall>e e' p. sys_RemoveAll sys (cacheDir c) e = (None, e') \<and> within (cacheDir c) p \<longrightarrow>
       IsNotExist (sys_Stat sys p e')) \<and>
    within (cacheDir c) (repoCachePath c name) \<and>
    sys_MkdirAll sys (filepath_Dir (repoCachePath c name)) (ext u) = (uerr, e3) \<and>
    (uerr = None \<or> IsExist uerr)"
  then have free: "unlocked c name" and cl: "Clean sys c u0 = (None, u)"
    and law: "\<forall>e e' p. sys_RemoveAll sys (cacheDir c) e = (None, e') \<and> within (cacheDir c) p \<longrightarrow>
       IsNotExist (sys_Stat sys p e')"
    and inside: "within (cacheDir c) (repoCachePath c name)"
    and mk: "sys_MkdirAll sys (filepath_Dir (repoCachePath c name)) (ext u) = (uerr, e3)"
    and ok: "uerr = None \<or> IsExist uerr"
    by blast+
  from cl law inside have "IsNotExist (sys_Stat sys (repoCachePath c name) (ext u))"
    by (rule Clean_removes)
  with free show "\<exists>n r c' u'. Clone sys c ctx base name dest u = Returns (r, c', u') \<and> 1 \<le> n \<and> n \<le> 3 \<and>
          filter is_mirror_clone (added u u') = replicate n (mirrorCloneCmd c base name) \<and>
          filter is_fetch (added u u') = [] \<and>
          (snd (fst (sys_exec sys ctx (gitPath c) []
              [''clone'', ''--mirror'', remoteOf base name, repoCachePath c name] e3)) = None \<longrightarrow>
           n = 1)"
    using mk ok by (rule Clone_absent)
qed

theorem clone_when_absent_fetch_when_present_witness:
  "(unlocked simClient ''org/repo'' \<and>
    IsNotExist (sys_Stat simSys (repoCachePath simClient ''org/repo'') (ext freshWorld)) \<and>
    (\<exists>n r c' w'. Clone simSys simClient (Context 0) ''https://github.com'' ''org/repo'' ''/work/dest''
         freshWorld = Returns (r, c', w') \<and> 1 \<le> n \<and> n \<le> 3 \<and>
       filter is_mirror_clone (added freshWorld w') =
         replicate n (mirrorCloneCmd simClient ''https://github.com'' ''org/repo'') \<and>
       filter is_fetch (added freshWorld w') = [] \<and> n = 1)) \<and>
   (sys_Stat simSys (repoCachePath simClient ''org/repo'') (ext cachedWorld) = None \<and>
    (\<exists>n r c' w'. Clone simSys simClient (Context 0) ''https://github.com'' ''org/repo'' ''/work/dest''
         cachedWorld = Returns (r, c', w') \<and> 1 \<le> n \<and> n \<le> 3 \<and>
       filter is_fetch (added cachedWorld w') = replicate n (fetchCmd simClient ''org/repo'') \<and>
       filter is_mirror_clone (added cachedWorld w') = [] \<and> n = 1)) \<and>
   (fst (Clean simSys simClient cachedWorld) = None \<and>
    within (cacheDir simClient) (repoCachePath simClient ''org/repo'') \<and>
    (\<exists>n r c' w'. Clone simSys simClient (Context 0) ''https://github.com'' ''org/repo'' ''/work/dest''
         (snd (Clean simSys simClient cachedWorld)) = Returns (r, c', w') \<and> 1 \<le> n \<and> n \<le> 3 \<and>
       filter is_mirror_clone (added (snd (Clean simSys simClient cachedWorld)) w') =
         replicate n (mirrorCloneCmd simClient ''https://github.com'' ''org/repo'') \<and>
       filter is_fetch (added (snd (Clean simSys simClient cachedWorld)) w') = [] \<and> n = 1))"
proof -
  let ?P = "repoCachePath simClient ''org/repo''"
  let ?u = "snd (Clean simSys simClient cachedWorld)"
  have free: "unlocked simClient ''org/repo''"
    by (simp add: unlocked_def simClient_def)
  have absent: "IsNotExist (sys_Stat simSys ?P (ext freshWorld))"
    by (simp add: sim_path freshWorld_def simWorld_def simSys_def sim_Stat_def)
  have mk: "sys_MkdirAll simSys (filepath_Dir ?P) (ext freshWorld) =
              (None, \<lparr>paths = [filepath_Dir ?P], replies = []\<rparr>)"
    by (simp add: freshWorld_def simWorld_def simSys_def sim_MkdirAll_def)
  have ok1: "snd (fst (sys_exec simSys (Context 0) (gitPath simClient) []
      [''clone'', ''--mirror'', remoteOf ''https://github.com'' ''org/repo'', ?P]
      \<lparr>paths = [filepath_Dir ?P], replies = []\<rparr>)) = None"
    by (simp add: simSys_def sim_exec_def)
  have present: "sys_Stat simSys ?P (ext cachedWorld) = None"
    by (simp add: sim_path cachedWorld_def simWorld_def simSys_def sim_Stat_def)
  have ok2: "snd (fst (sys_exec simSys (Context 0) (gitPath simClient) ?P [''fetch'']
      (ext cachedWorld))) = None"
    by (simp add: simSys_def sim_exec_def cachedWorld_def simWorld_def)
  have cl: "Clean simSys simClient cachedWorld = (None, ?u)"
    by (simp add: Clean_def os_RemoveAll_def simSys_def sim_RemoveAll_def split: prod.splits)
  have root: "cacheDir simClient = ''/tmp/gitcache''"
    by (simp add: simClient_def)
  have inside: "within (cacheDir simClient) ?P"
    by (simp add: sim_path within_def root)
  have mk3: "sys_MkdirAll simSys (filepath_Dir ?P) (ext ?u) =
      (None, (ext ?u)\<lparr>paths := filepath_Dir ?P # paths (ext ?u)\<rparr>)"
    by (simp add: simSys_def sim_MkdirAll_def)
  have ok3: "snd (fst (sys_exec simSys (Context 0) (gitPath simClient) []
      [''clone'', ''--mirror'', remoteOf ''https://github.com'' ''org/repo'', ?P]
      ((ext ?u)\<lparr>paths := filepath_Dir ?P # paths (ext ?u)\<rparr>))) = None"
    by (simp add: simSys_def sim_exec_def Clean_def os_RemoveAll_def sim_RemoveAll_def
        cachedWorld_def simWorld_def emit_def)
  note inst = clone_when_absent_fetch_when_present
    [of simClient "''org/repo''" simSys freshWorld None "\<lparr>paths = [filepath_Dir ?P], replies = []\<rparr>"
        "Context 0" "''https://github.com''" "''/work/dest''" cachedWorld cachedWorld ?u None
        "(ext ?u)\<lparr>paths := filepath_Dir ?P # paths (ext ?u)\<rparr>"]
  from inst [THEN conjunct1, rule_format, OF conjI [OF free conjI [OF absent conjI [OF mk disjI1 [OF refl]]]]]
    ok1
  have one: "\<exists>n r c' w'. Clone simSys simClient (Context 0) ''https://github.com'' ''org/repo'' ''/work/dest''
         freshWorld = Returns (r, c', w') \<and> 1 \<le> n \<and> n \<le> 3 \<and>
       filter is_mirror_clone (added freshWorld w') =
         replicate n (mirrorCloneCmd simClient ''https://github.com'' ''org/repo'') \<and>
       filter is_fetch (added freshWorld w') = [] \<and> n = 1"
    by (elim exE conjE) (intro exI conjI, assumption+, simp)
  from inst [THEN conjunct2, THEN conjunct1, rule_format, OF conjI [OF free present]] ok2
  have two: "\<exists>n r c' w'. Clone simSys simClient (Context 0) ''https://github.com'' ''org/repo'' ''/work/dest''
         cachedWorld = Returns (r, c', w') \<and> 1 \<le> n \<and> n \<le> 3 \<and>
       filter is_fetch (added cachedWorld w') = replicate n (fetchCmd simClient ''org/repo'') \<and>
       filter is_mirror_clone (added cachedWorld w') = [] \<and> n = 1"
    by (elim exE conjE) (intro exI conjI, assumption+, simp)
  from inst [THEN conjunct2, THEN conjunct2, rule_format,
      OF conjI [OF free conjI [OF cl conjI [OF sim_removal_law conjI [OF inside conjI [OF mk3 disjI1 [OF refl]]]]]]]
    ok3
  have three: "\<exists>n r c' w'. Clone simSys simClient (Context 0) ''https://github.com'' ''org/repo'' ''/work/dest''
         ?u = Returns (r, c', w') \<and> 1 \<le> n \<and> n \<le> 3 \<and>
       filter is_mirror_clone (added ?u w') =
         replicate n (mirrorCloneCmd simClient ''https://github.com'' ''org/repo'') \<and>
       filter is_fetch (added ?u w') = [] \<and> n = 1"
    by (elim exE conjE) (intro exI conjI, assumption+, simp)
  have cl': "fst (Clean simSys simClient cachedWorld) = None"
    by (simp add: Clean_def os_RemoveAll_def simSys_def sim_RemoveAll_def split: prod.splits)
  from free absent one present two cl' inside three show ?thesis
    by (intro conjI)
qed

text \<open>
  C1 as stated fails in three places. A first mirror clone that fails is retried, so the
  mirror clone command runs twice. When the parent directory cannot be made, no mirror
  clone runs at all. And the mirror of the name \<open>../other\<close> is \<open>/tmp/other.git\<close>, outside the
  cache root \<open>/tmp/gitcache\<close>: \<open>Clean\<close> leaves it, and the next \<open>Clone\<close> fetches.
\<close>

theorem clone_commands_counterexample:
  "IsNotExist (sys_Stat simSys (repoCachePath simClient ''org/repo'') (ext flakyWorld)) \<and>
   (case Clone simSys simClient (Context 0) ''https://github.com'' ''org/repo'' ''/work/dest''
           flakyWorld of
      Returns (r, c', w') \<Rightarrow> filter is_mirror_clone (added flakyWorld w')
    | _ \<Rightarrow> []) =
     [mirrorCloneCmd simClient ''https://github.com'' ''org/repo'',
      mirrorCloneCmd simClient ''https://github.com'' ''org/repo''] \<and>
   (case Clone readOnlySys simClient (Context 0) ''https://github.com'' ''org/repo'' ''/work/dest''
           freshWorld of
      Returns (r, c', w') \<Rightarrow> (snd r, filter is_mirror_clone (added freshWorld w'))
    | _ \<Rightarrow> (None, [])) = (Some (ErrOther ''permission denied''), []) \<and>
   fst (Clean simSys simClient (simWorld [''/tmp/other.git''] [])) = None \<and>
   (case Clone simSys simClient (Context 0) ''https://github.com'' ''../other'' ''/work/dest''
           (snd (Clean simSys simClient (simWorld [''/tmp/other.git''] []))) of
      Returns (r, c', w') \<Rightarrow>
        (filter is_mirror_clone (trace w'), filter is_fetch (trace w'))
    | _ \<Rightarrow> ([], [])) = ([], [fetchCmd simClient ''../other''])"
  by code_simp

lemma runGitCommand_eq:
  "sys_exec sys ctx (gitPath c) dir args (ext w) = (r, e') \<Longrightarrow>
   runGitCommand sys c ctx dir args w = (r, emit (EvExec (gitPath c) dir args) (w\<lparr>ext := e'\<rparr>))"
  by (simp add: runGitCommand_def)

lemma retryCommand_three_failures:
  assumes "f w = ((o1, Some x1), w1)"
    and "f (afterFailure sys d lg 0 w1) = ((o2, Some x2), w2)"
    and "f (afterFailure sys d lg 1 w2) = ((o3, Some x3), w3)"
  shows "retryCommand sys 3 d lg f w = ((o3, Some x3), afterFailure sys d lg 2 w3)"
  using assms
  by (simp add: retryCommand_def retryLoop_failure retryLoop_done)

lemma ext_afterFailure [simp]: "ext (afterFailure sys d lg i w) = sys_Sleep sys d (ext w)"
  by (simp add: afterFailure_def time_Sleep_def)

lemma world_update_simps [simp]:
  "trace (w\<lparr>ext := e\<rparr>) = trace w"
  "ext (w\<lparr>ext := e\<rparr>) = e"
  by simp_all

text \<open>
  C6. \<open>Clone\<close> is called with the mutexes of the repository free and the mirror
  present, and the fetch fails three times. Then \<open>Clone\<close> returns the error of the third
  fetch, wrapped; apart from logging it has done a stat, three fetches and three sleeps
  and nothing else: no local clone, no removal; the outside world is as the third fetch
  and the sleep after it left it; and the mutex of the repository is free again. So
  where a failed fetch and a sleep do not remove the mirror themselves, the mirror is
  still there for the next call.
\<close>

theorem failed_fetch_leaves_mirror:
  assumes free: "unlocked c name"
    and cached: "sys_Stat sys (repoCachePath c name) (ext w) = None"
    and f1: "sys_exec sys ctx (gitPath c) (repoCachePath c name) [''fetch''] (ext w) =
               ((o1, Some x1), e1)"
    and f2: "sys_exec sys ctx (gitPath c) (repoCachePath c name) [''fetch'']
               (sys_Sleep sys Second e1) = ((o2, Some x2), e2)"
    and f3: "sys_exec sys ctx (gitPath c) (repoCachePath c name) [''fetch'']
               (sys_Sleep sys Second e2) = ((o3, Some x3), e3)"
  shows "\<exists>c' w'.
          Clone sys c ctx base name dest w =
            Returns ((None, Some (Errorf ''failed to fetch: %v'' x3)), c', w') \<and>
          filter (\<lambda>ev. \<not> is_log ev) (added w w') =
            [EvStat (repoCachePath c name),
             fetchCmd c name, EvSleep Second,
             fetchCmd c name, EvSleep Second,
             fetchCmd c name, EvSleep Second] \<and>
          filter is_local_clone (added w w') = [] \<and>
          filter is_remove (added w w') = [] \<and>
          ext w' = sys_Sleep sys Second e3 \<and>
          repoLocks c' name = Some False \<and>
          ((\<forall>e out x e'. sys_Stat sys (repoCachePath c name) e = None \<and>
               sys_exec sys ctx (gitPath c) (repoCachePath c name) [''fetch''] e = ((out, Some x), e') \<longrightarrow>
               sys_Stat sys (repoCachePath c name) e' = None) \<and>
           (\<forall>e. sys_Stat sys (repoCachePath c name) e = None \<longrightarrow>
               sys_Stat sys (repoCachePath c name) (sys_Sleep sys Second e) = None) \<longrightarrow>
           sys_Stat sys (repoCachePath c name) (ext w') = None)"
proof -
  let ?P = "repoCachePath c name"
  let ?lg = "cloneLogger c base name"
  let ?f = "runGitCommand sys c ctx ?P [''fetch'']"
  let ?E = "EvExec (gitPath c) ?P [''fetch'']"
  define w0 where "w0 = logAt InfoLevel (logger c)
    (Sprintf ''fetching %s to update the cache'' [ArgStr name]) [] (emit (EvStat ?P) w)"
  define a1 where "a1 = emit ?E (w0\<lparr>ext := e1\<rparr>)"
  define a2 where "a2 = emit ?E ((afterFailure sys Second (logger c) 0 a1)\<lparr>ext := e2\<rparr>)"
  define a3 where "a3 = emit ?E ((afterFailure sys Second (logger c) 1 a2)\<lparr>ext := e3\<rparr>)"
  define w4 where "w4 = logAt ErrorLevel ?lg (Msg ''failed to fetch from remote'')
              [zap_String ''out'' o3, zap_Error x3] (afterFailure sys Second (logger c) 2 a3)"
  have s1: "os_Stat sys ?P w = (None, emit (EvStat ?P) w)"
    by (simp add: os_Stat_def cached)
  have r1: "?f w0 = ((o1, Some x1), a1)"
    unfolding a1_def by (rule runGitCommand_eq) (simp add: w0_def f1)
  have r2: "?f (afterFailure sys Second (logger c) 0 a1) = ((o2, Some x2), a2)"
    unfolding a2_def by (rule runGitCommand_eq) (simp add: a1_def f2)
  have r3: "?f (afterFailure sys Second (logger c) 1 a2) = ((o3, Some x3), a3)"
    unfolding a3_def by (rule runGitCommand_eq) (simp add: a2_def f3)
  have retry: "retryCommand sys 3 Second (logger c) ?f w0 =
                 ((o3, Some x3), afterFailure sys Second (logger c) 2 a3)"
    using r1 r2 r3 by (rule retryCommand_three_failures)
  have um: "Clone_updateMirror sys c ctx base name w =
              (Some (Errorf ''failed to fetch: %v'' x3), w4)"
    unfolding Clone_updateMirror_def Let_def s1 prod.case w0_def [symmetric]
    by (simp add: retry w4_def)
  have body: "Clone_body sys c ctx base name dest w =
                ((None, Some (Errorf ''failed to fetch: %v'' x3)), w4)"
    by (simp add: Clone_body_def um)
  let ?c' = "c\<lparr>mu := False, repoLocks := (repoLocks c)(name \<mapsto> False)\<rparr>"
  have ret: "Clone sys c ctx base name dest w =
               Returns ((None, Some (Errorf ''failed to fetch: %v'' x3)), ?c', w4)"
    by (simp add: Clone_unlocked [OF free] body)
  have tr: "trace w4 = trace w @
      [EvStat ?P,
       EvLog InfoLevel (Sprintf ''fetching %s to update the cache'' [ArgStr name]) (logger c),
       ?E, retryWarning Second (logger c) 0, EvSleep Second,
       ?E, retryWarning Second (logger c) 1, EvSleep Second,
       ?E, retryWarning Second (logger c) 2, EvSleep Second,
       EvLog ErrorLevel (Msg ''failed to fetch from remote'')
         (?lg @ [zap_String ''out'' o3, zap_Error x3])]"
    by (simp add: w4_def a3_def a2_def a1_def w0_def trace_afterFailure)
  have ad: "added w w4 =
      [EvStat ?P,
       EvLog InfoLevel (Sprintf ''fetching %s to update the cache'' [ArgStr name]) (logger c),
       ?E, retryWarning Second (logger c) 0, EvSleep Second,
       ?E, retryWarning Second (logger c) 1, EvSleep Second,
       ?E, retryWarning Second (logger c) 2, EvSleep Second,
       EvLog ErrorLevel (Msg ''failed to fetch from remote'')
         (?lg @ [zap_String ''out'' o3, zap_Error x3])]"
    using tr by (rule added_append)
  have A: "filter (\<lambda>ev. \<not> is_log ev) (added w w4) =
            [EvStat ?P, fetchCmd c name, EvSleep Second, fetchCmd c name, EvSleep Second,
             fetchCmd c name, EvSleep Second]"
    by (simp add: ad retryWarning_def fetchCmd_def)
  have B: "filter is_local_clone (added w w4) = []"
    by (simp add: ad retryWarning_def)
  have C: "filter is_remove (added w w4) = []"
    by (simp add: ad retryWarning_def)
  have D: "ext w4 = sys_Sleep sys Second e3"
    by (simp add: w4_def a3_def)
  have E: "repoLocks ?c' name = Some False"
    by simp
  have F: "(\<forall>e out x e'. sys_Stat sys ?P e = None \<and>
               sys_exec sys ctx (gitPath c) ?P [''fetch''] e = ((out, Some x), e') \<longrightarrow>
               sys_Stat sys ?P e' = None) \<and>
           (\<forall>e. sys_Stat sys ?P e = None \<longrightarrow> sys_Stat sys ?P (sys_Sleep sys Second e) = None) \<longrightarrow>
           sys_Stat sys ?P (ext w4) = None"
  proof
    assume keep: "(\<forall>e out x e'. sys_Stat sys ?P e = None \<and>
               sys_exec sys ctx (gitPath c) ?P [''fetch''] e = ((out, Some x), e') \<longrightarrow>
               sys_Stat sys ?P e' = None) \<and>
           (\<forall>e. sys_Stat sys ?P e = None \<longrightarrow> sys_Stat sys ?P (sys_Sleep sys Second e) = None)"
    then have kf: "\<And>e out x e'. sys_Stat sys ?P e = None \<Longrightarrow>
               sys_exec sys ctx (gitPath c) ?P [''fetch''] e = ((out, Some x), e') \<Longrightarrow>
               sys_Stat sys ?P e' = None"
      and ks: "\<And>e. sys_Stat sys ?P e = None \<Longrightarrow> sys_Stat sys ?P (sys_Sleep sys Second e) = None"
      by blast+
    from kf [OF cached f1] have "sys_Stat sys ?P e1 = None" .
    then have "sys_Stat sys ?P (sys_Sleep sys Second e1) = None" by (rule ks)
    from kf [OF this f2] have "sys_Stat sys ?P e2 = None" .
    then have "sys_Stat sys ?P (sys_Sleep sys Second e2) = None" by (rule ks)
    from kf [OF this f3] have "sys_Stat sys ?P e3 = None" .
    then have "sys_Stat sys ?P (sys_Sleep sys Second e3) = None" by (rule ks)
    with D show "sys_Stat sys ?P (ext w4) = None" by simp
  qed
  from ret A B C D E F show ?thesis
    by (intro exI conjI)
qed

lemma sim_failed_exec_keeps:
  "sys_exec simSys ctx p dir args e = ((out, Some x), e') \<Longrightarrow> paths e' = paths e"
  by (auto simp: simSys_def sim_exec_def split: list.splits option.splits)

theorem failed_fetch_leaves_mirror_witness:
  "unlocked simClient ''org/repo'' \<and>
   sys_Stat simSys (repoCachePath simClient ''org/repo'') (ext staleWorld) = None \<and>
   (\<exists>c' w'.
      Clone simSys simClient (Context 0) ''https://github.com'' ''org/repo'' ''/work/dest'' staleWorld =
        Returns ((None, Some (Errorf ''failed to fetch: %v'' (ErrOther ''exit status 128''))), c', w') \<and>
      filter (\<lambda>ev. \<not> is_log ev) (added staleWorld w') =
        [EvStat (repoCachePath simClient ''org/repo''),
         fetchCmd simClient ''org/repo'', EvSleep Second,
         fetchCmd simClient ''org/repo'', EvSleep Second,
         fetchCmd simClient ''org/repo'', EvSleep Second] \<and>
      filter is_local_clone (added staleWorld w') = [] \<and>
      filter is_remove (added staleWorld w') = [] \<and>
      repoLocks c' ''org/repo'' = Some False \<and>
      sys_Stat simSys (repoCachePath simClient ''org/repo'') (ext w') = None)"
proof -
  let ?P = "repoCachePath simClient ''org/repo''"
  let ?x = "ErrOther ''exit status 128''"
  let ?e = "\<lambda>rs. \<lparr>paths = [''/tmp/gitcache/org/repo.git''], replies = rs\<rparr>"
  have free: "unlocked simClient ''org/repo''"
    by (simp add: unlocked_def simClient_def)
  have cached: "sys_Stat simSys ?P (ext staleWorld) = None"
    by (simp add: sim_path staleWorld_def simWorld_def simSys_def sim_Stat_def)
  have f1: "sys_exec simSys (Context 0) (gitPath simClient) ?P [''fetch''] (ext staleWorld) =
      ((''timeout'', Some ?x), ?e [(''timeout'', Some ?x), (''timeout'', Some ?x)])"
    by (simp add: staleWorld_def simWorld_def simSys_def sim_exec_def)
  have f2: "sys_exec simSys (Context 0) (gitPath simClient) ?P [''fetch'']
      (sys_Sleep simSys Second (?e [(''timeout'', Some ?x), (''timeout'', Some ?x)])) =
      ((''timeout'', Some ?x), ?e [(''timeout'', Some ?x)])"
    by (simp add: simSys_def sim_exec_def)
  have f3: "sys_exec simSys (Context 0) (gitPath simClient) ?P [''fetch'']
      (sys_Sleep simSys Second (?e [(''timeout'', Some ?x)])) = ((''timeout'', Some ?x), ?e [])"
    by (simp add: simSys_def sim_exec_def)
  have keep: "(\<forall>e out x e'. sys_Stat simSys ?P e = None \<and>
               sys_exec simSys (Context 0) (gitPath simClient) ?P [''fetch''] e = ((out, Some x), e') \<longrightarrow>
               sys_Stat simSys ?P e' = None) \<and>
           (\<forall>e. sys_Stat simSys ?P e = None \<longrightarrow> sys_Stat simSys ?P (sys_Sleep simSys Second e) = None)"
  proof (intro conjI allI impI)
    fix e out x e'
    assume "sys_Stat simSys ?P e = None \<and>
      sys_exec simSys (Context 0) (gitPath simClient) ?P [''fetch''] e = ((out, Some x), e')"
    then have "sys_Stat simSys ?P e = None" and "paths e' = paths e"
      using sim_failed_exec_keeps by blast+
    then show "sys_Stat simSys ?P e' = None"
      by (simp add: simSys_def sim_Stat_def)
  next
    fix e
    assume "sys_Stat simSys ?P e = None"
    then show "sys_Stat simSys ?P (sys_Sleep simSys Second e) = None"
      by (simp add: simSys_def)
  qed
  from failed_fetch_leaves_mirror [OF free cached f1 f2 f3, of "''https://github.com''" "''/work/dest''"]
  obtain c' w' where
      r: "Clone simSys simClient (Context 0) ''https://github.com'' ''org/repo'' ''/work/dest'' staleWorld =
        Returns ((None, Some (Errorf ''failed to fetch: %v'' ?x)), c', w')"
    and a: "filter (\<lambda>ev. \<not> is_log ev) (added staleWorld w') =
        [EvStat ?P, fetchCmd simClient ''org/repo'', EvSleep Second,
         fetchCmd simClient ''org/repo'', EvSleep Second,
         fetchCmd simClient ''org/repo'', EvSleep Second]"
    and b: "filter is_local_clone (added staleWorld w') = []"
    and c: "filter is_remove (added staleWorld w') = []"
    and l: "repoLocks c' ''org/repo'' = Some False"
    and k: "(\<forall>e out x e'. sys_Stat simSys ?P e = None \<and>
               sys_exec simSys (Context 0) (gitPath simClient) ?P [''fetch''] e = ((out, Some x), e') \<longrightarrow>
               sys_Stat simSys ?P e' = None) \<and>
           (\<forall>e. sys_Stat simSys ?P e = None \<longrightarrow> sys_Stat simSys ?P (sys_Sleep simSys Second e) = None) \<longrightarrow>
           sys_Stat simSys ?P (ext w') = None"
    by (elim exE conjE)
  from k keep have s: "sys_Stat simSys ?P (ext w') = None"
    by (rule mp)
  from r a b c l s have "Clone simSys simClient (Context 0) ''https://github.com'' ''org/repo'' ''/work/dest'' staleWorld =
        Returns ((None, Some (Errorf ''failed to fetch: %v'' ?x)), c', w') \<and>
      filter (\<lambda>ev. \<not> is_log ev) (added staleWorld w') =
        [EvStat ?P, fetchCmd simClient ''org/repo'', EvSleep Second,
         fetchCmd simClient ''org/repo'', EvSleep Second,
         fetchCmd simClient ''org/repo'', EvSleep Second] \<and>
      filter is_local_clone (added staleWorld w') = [] \<and>
      filter is_remove (added staleWorld w') = [] \<and>
      repoLocks c' ''org/repo'' = Some False \<and>
      sys_Stat simSys ?P (ext w') = None"
    by (intro conjI)
  then have "\<exists>c' w'. Clone simSys simClient (Context 0) ''https://github.com'' ''org/repo'' ''/work/dest'' staleWorld =
        Returns ((None, Some (Errorf ''failed to fetch: %v'' ?x)), c', w') \<and>
      filter (\<lambda>ev. \<not> is_log ev) (added staleWorld w') =
        [EvStat ?P, fetchCmd simClient ''org/repo'', EvSleep Second,
         fetchCmd simClient ''org/repo'', EvSleep Second,
         fetchCmd simClient ''org/repo'', EvSleep Second] \<and>
      filter is_local_clone (added staleWorld w') = [] \<and>
      filter is_remove (added staleWorld w') = [] \<and>
      repoLocks c' ''org/repo'' = Some False \<and>
      sys_Stat simSys ?P (ext w') = None"
    by (intro exI)
  with free cached show ?thesis
    by (intro conjI)
qed

lemma checkout_local_clone_fails:
  assumes mk: "sys_MkdirAll sys dest (ext w1) = (None, e2)"
    and lc: "sys_exec sys ctx (gitPath c) [] [''clone'', repoCachePath c name, dest] e2 =
               ((out, Some x), e3)"
  shows "\<exists>w'. Clone_checkout sys c ctx base name dest w1 =
           ((None, Some (Errorf ''failed to clone from local: %v'' x)), w') \<and>
         filter (\<lambda>ev. \<not> is_log ev) (added w1 w') = [EvMkdirAll dest, localCloneCmd c name dest] \<and>
         ext w' = e3"
proof -
  let ?P = "repoCachePath c name"
  define v1 where "v1 = emit (EvMkdirAll dest) (w1\<lparr>ext := e2\<rparr>)"
  define v2 where "v2 = emit (localCloneCmd c name dest) (v1\<lparr>ext := e3\<rparr>)"
  define v3 where "v3 = logAt ErrorLevel (cloneLogger c base name) (Msg ''failed to clone from local'')
    [zap_String ''out'' out, zap_String ''repo-path'' dest, zap_Error x] v2"
  have s1: "os_MkdirAll sys dest w1 = (None, v1)"
    by (simp add: os_MkdirAll_def mk v1_def)
  have s2: "runGitCommand sys c ctx [] [''clone'', ?P, dest] v1 = ((out, Some x), v2)"
    unfolding v2_def localCloneCmd_def by (rule runGitCommand_eq) (simp add: v1_def lc)
  have co: "Clone_checkout sys c ctx base name dest w1 =
              ((None, Some (Errorf ''failed to clone from local: %v'' x)), v3)"
    unfolding Clone_checkout_def Let_def s1 prod.case
    by (simp add: s2 v3_def)
  have "trace v3 = trace w1 @ [EvMkdirAll dest, localCloneCmd c name dest,
      EvLog ErrorLevel (Msg ''failed to clone from local'')
        (cloneLogger c base name @
         [zap_String ''out'' out, zap_String ''repo-path'' dest, zap_Error x])]"
    by (simp add: v3_def v2_def v1_def)
  then have "added w1 v3 = [EvMkdirAll dest, localCloneCmd c name dest,
      EvLog ErrorLevel (Msg ''failed to clone from local'')
        (cloneLogger c base name @
         [zap_String ''out'' out, zap_String ''repo-path'' dest, zap_Error x])]"
    by (rule added_append)
  then have A: "filter (\<lambda>ev. \<not> is_log ev) (added w1 v3) = [EvMkdirAll dest, localCloneCmd c name dest]"
    by (simp add: localCloneCmd_def)
  have B: "ext v3 = e3"
    by (simp add: v3_def v2_def)
  from co A B have "Clone_checkout sys c ctx base name dest w1 =
           ((None, Some (Errorf ''failed to clone from local: %v'' x)), v3) \<and>
         filter (\<lambda>ev. \<not> is_log ev) (added w1 v3) = [EvMkdirAll dest, localCloneCmd c name dest] \<and>
         ext v3 = e3"
    by (intro conjI)
  then show ?thesis
    by (intro exI)
qed

lemma checkout_identity_fails:
  assumes mk: "sys_MkdirAll sys dest (ext w1) = (None, e2)"
    and lc: "sys_exec sys ctx (gitPath c) [] [''clone'', repoCachePath c name, dest] e2 =
               ((out, None), e3)"
    and ident: "username c \<noteq> [] \<or> email c \<noteq> []"
    and su: "sys_SetUser sys ctx dest (username c) (email c) e3 = (Some x, e4)"
  shows "\<exists>w'. Clone_checkout sys c ctx base name dest w1 =
           ((None, Some (Errorf ''failed to set user: %v'' x)), w') \<and>
         filter (\<lambda>ev. \<not> is_log ev) (added w1 w') =
           [EvMkdirAll dest, localCloneCmd c name dest, EvSetUser dest (username c) (email c)] \<and>
         ext w' = e4"
proof -
  let ?P = "repoCachePath c name"
  define v1 where "v1 = emit (EvMkdirAll dest) (w1\<lparr>ext := e2\<rparr>)"
  define v2 where "v2 = emit (localCloneCmd c name dest) (v1\<lparr>ext := e3\<rparr>)"
  define v3 where "v3 = emit (EvSetUser dest (username c) (email c)) (v2\<lparr>ext := e4\<rparr>)"
  have s1: "os_MkdirAll sys dest w1 = (None, v1)"
    by (simp add: os_MkdirAll_def mk v1_def)
  have s2: "runGitCommand sys c ctx [] [''clone'', ?P, dest] v1 = ((out, None), v2)"
    unfolding v2_def localCloneCmd_def by (rule runGitCommand_eq) (simp add: v1_def lc)
  have s3: "SetUser sys (NewRepo name dest (gitPath c) (remoteOf base name) (logger c)) ctx
              (username c) (email c) v2 = (Some x, v3)"
    by (simp add: SetUser_def NewRepo_def v2_def su v3_def)
  have co: "Clone_checkout sys c ctx base name dest w1 =
              ((None, Some (Errorf ''failed to set user: %v'' x)), v3)"
    unfolding Clone_checkout_def Let_def s1 prod.case
    using ident by (simp add: s2 s3)
  have "trace v3 = trace w1 @ [EvMkdirAll dest, localCloneCmd c name dest,
      EvSetUser dest (username c) (email c)]"
    by (simp add: v3_def v2_def v1_def)
  then have "added w1 v3 = [EvMkdirAll dest, localCloneCmd c name dest,
      EvSetUser dest (username c) (email c)]"
    by (rule added_append)
  then have A: "filter (\<lambda>ev. \<not> is_log ev) (added w1 v3) =
      [EvMkdirAll dest, localCloneCmd c name dest, EvSetUser dest (username c) (email c)]"
    by (simp add: localCloneCmd_def)
  have B: "ext v3 = e4"
    by (simp add: v3_def)
  from co A B have "Clone_checkout sys c ctx base name dest w1 =
           ((None, Some (Errorf ''failed to set user: %v'' x)), v3) \<and>
         filter (\<lambda>ev. \<not> is_log ev) (added w1 v3) =
           [EvMkdirAll dest, localCloneCmd c name dest, EvSetUser dest (username c) (email c)] \<and>
         ext v3 = e4"
    by (intro conjI)
  then show ?thesis
    by (intro exI)
qed

lemma Clone_after_update:
  assumes free: "unlocked c name"
    and um: "Clone_updateMirror sys c ctx base name w = (None, w1)"
    and co: "Clone_checkout sys c ctx base name dest w1 = (r, w')"
  shows "Clone sys c ctx base name dest w =
           Returns (r, c\<lparr>mu := False, repoLocks := (repoLocks c)(name \<mapsto> False)\<rparr>, w')"
  by (simp add: Clone_unlocked [OF free] Clone_body_def um co)

text \<open>
  C7. The mirror update of a \<open>Clone\<close> has succeeded, leaving the world \<open>w1\<close>, and then
  the local clone fails, or the local clone succeeds and the identity configuration
  fails. Then \<open>Clone\<close> returns the error, wrapped, and after the mirror update it has,
  apart from logging, made the destination directory, run the local clone and, in the
  second case, configured the identity, and nothing else: the outside world is as the
  failed step left it. So whatever these steps leave unchanged of the outside world, the
  updated mirror for one, is after the call as the mirror update left it.
\<close>

theorem failed_checkout_leaves_mirror:
  "(unlocked c name \<and> Clone_updateMirror sys c ctx base name w = (None, w1) \<and>
    sys_MkdirAll sys dest (ext w1) = (None, e2) \<and>
    sys_exec sys ctx (gitPath c) [] [''clone'', repoCachePath c name, dest] e2 = ((out, Some x), e3) \<longrightarrow>
      (\<exists>c' w'. Clone sys c ctx base name dest w =
                  Returns ((None, Some (Errorf ''failed to clone from local: %v'' x)), c', w') \<and>
         filter (\<lambda>ev. \<not> is_log ev) (added w1 w') = [EvMkdirAll dest, localCloneCmd c name dest] \<and>
         ext w' = e3 \<and>
         ((\<forall>e. m (snd (sys_MkdirAll sys dest e)) = m e) \<and>
          (\<forall>e. m (snd (sys_exec sys ctx (gitPath c) [] [''clone'', repoCachePath c name, dest] e)) = m e) \<longrightarrow>
          m (ext w') = m (ext w1)))) \<and>
   (unlocked c name \<and> Clone_updateMirror sys c ctx base name v = (None, v1) \<and>
    sys_MkdirAll sys dest (ext v1) = (None, d2) \<and>
    sys_exec sys ctx (gitPath c) [] [''clone'', repoCachePath c name, dest] d2 = ((out', None), d3) \<and>
    (username c \<noteq> [] \<or> email c \<noteq> []) \<and>
    sys_SetUser sys ctx dest (username c) (email c) d3 = (Some y, d4) \<longrightarrow>
      (\<exists>c' v'. Clone sys c ctx base name dest v =
                  Returns ((None, Some (Errorf ''failed to set user: %v'' y)), c', v') \<and>
         filter (\<lambda>ev. \<not> is_log ev) (added v1 v') =
           [EvMkdirAll dest, localCloneCmd c name dest, EvSetUser dest (username c) (email c)] \<and>
         ext v' = d4 \<and>
         ((\<forall>e. m (snd (sys_MkdirAll sys dest e)) = m e) \<and>
          (\<forall>e. m (snd (sys_exec sys ctx (gitPath c) [] [''clone'', repoCachePath c name, dest] e)) = m e) \<and>
          (\<forall>e. m (snd (sys_SetUser sys ctx dest (username c) (email c) e)) = m e) \<longrightarrow>
          m (ext v') = m (ext v1))))"
proof (intro conjI impI)
  let ?P = "repoCachePath c name"
  assume h: "unlocked c name \<and> Clone_updateMirror sys c ctx base name w = (None, w1) \<and>
    sys_MkdirAll sys dest (ext w1) = (None, e2) \<and>
    sys_exec sys ctx (gitPath c) [] [''clone'', ?P, dest] e2 = ((out, Some x), e3)"
  then have free: "unlocked c name"
    and um: "Clone_updateMirror sys c ctx base name w = (None, w1)"
    and mk: "sys_MkdirAll sys dest (ext w1) = (None, e2)"
    and lc: "sys_exec sys ctx (gitPath c) [] [''clone'', ?P, dest] e2 = ((out, Some x), e3)"
    by blast+
  from checkout_local_clone_fails [OF mk lc, of base]
  obtain w' where co: "Clone_checkout sys c ctx base name dest w1 =
           ((None, Some (Errorf ''failed to clone from local: %v'' x)), w')"
    and A: "filter (\<lambda>ev. \<not> is_log ev) (added w1 w') = [EvMkdirAll dest, localCloneCmd c name dest]"
    and B: "ext w' = e3"
    by (elim exE conjE)
  note ret = Clone_after_update [OF free um co]
  have F: "(\<forall>e. m (snd (sys_MkdirAll sys dest e)) = m e) \<and>
          (\<forall>e. m (snd (sys_exec sys ctx (gitPath c) [] [''clone'', ?P, dest] e)) = m e) \<longrightarrow>
          m (ext w') = m (ext w1)"
  proof
    assume "(\<forall>e. m (snd (sys_MkdirAll sys dest e)) = m e) \<and>
          (\<forall>e. m (snd (sys_exec sys ctx (gitPath c) [] [''clone'', ?P, dest] e)) = m e)"
    then have pm: "m (snd (sys_MkdirAll sys dest (ext w1))) = m (ext w1)"
      and pc: "m (snd (sys_exec sys ctx (gitPath c) [] [''clone'', ?P, dest] e2)) = m e2"
      by blast+
    from pm mk have "m e2 = m (ext w1)" by simp
    moreover from pc lc have "m e3 = m e2" by simp
    ultimately show "m (ext w') = m (ext w1)" using B by simp
  qed
  from ret A B F
  have "Clone sys c ctx base name dest w =
          Returns ((None, Some (Errorf ''failed to clone from local: %v'' x)),
                   c\<lparr>mu := False, repoLocks := (repoLocks c)(name \<mapsto> False)\<rparr>, w') \<and>
         filter (\<lambda>ev. \<not> is_log ev) (added w1 w') = [EvMkdirAll dest, localCloneCmd c name dest] \<and>
         ext w' = e3 \<and>
         ((\<forall>e. m (snd (sys_MkdirAll sys dest e)) = m e) \<and>
          (\<forall>e. m (snd (sys_exec sys ctx (gitPath c) [] [''clone'', ?P, dest] e)) = m e) \<longrightarrow>
          m (ext w') = m (ext w1))"
    by (intro conjI)
  then show "\<exists>c' w'. Clone sys c ctx base name dest w =
                  Returns ((None, Some (Errorf ''failed to clone from local: %v'' x)), c', w') \<and>
         filter (\<lambda>ev. \<not> is_log ev) (added w1 w') = [EvMkdirAll dest, localCloneCmd c name dest] \<and>
         ext w' = e3 \<and>
         ((\<forall>e. m (snd (sys_MkdirAll sys dest e)) = m e) \<and>
          (\<forall>e. m (snd (sys_exec sys ctx (gitPath c) [] [''clone'', ?P, dest] e)) = m e) \<longrightarrow>
          m (ext w') = m (ext w1))"
    by (intro exI)
next
  let ?P = "repoCachePath c name"
  assume h: "unlocked c name \<and> Clone_updateMirror sys c ctx base name v = (None, v1) \<and>
    sys_MkdirAll sys dest (ext v1) = (None, d2) \<and>
    sys_exec sys ctx (gitPath c) [] [''clone'', ?P, dest] d2 = ((out', None), d3) \<and>
    (username c \<noteq> [] \<or> email c \<noteq> []) \<and>
    sys_SetUser sys ctx dest (username c) (email c) d3 = (Some y, d4)"
  then have free: "unlocked c name"
    and um: "Clone_updateMirror sys c ctx base name v = (None, v1)"
    and mk: "sys_MkdirAll sys dest (ext v1) = (None, d2)"
    and lc: "sys_exec sys ctx (gitPath c) [] [''clone'', ?P, dest] d2 = ((out', None), d3)"
    and ident: "username c \<noteq> [] \<or> email c \<noteq> []"
    and su: "sys_SetUser sys ctx dest (username c) (email c) d3 = (Some y, d4)"
    by blast+
  from checkout_identity_fails [OF mk lc ident su, of base]
  obtain v' where co: "Clone_checkout sys c ctx base name dest v1 =
           ((None, Some (Errorf ''failed to set user: %v'' y)), v')"
    and A: "filter (\<lambda>ev. \<not> is_log ev) (added v1 v') =
           [EvMkdirAll dest, localCloneCmd c name dest, EvSetUser dest (username c) (email c)]"
    and B: "ext v' = d4"
    by (elim exE conjE)
  note ret = Clone_after_update [OF free um co]
  have F: "(\<forall>e. m (snd (sys_MkdirAll sys dest e)) = m e) \<and>
          (\<forall>e. m (snd (sys_exec sys ctx (gitPath c) [] [''clone'', ?P, dest] e)) = m e) \<and>
          (\<forall>e. m (snd (sys_SetUser sys ctx dest (username c) (email c) e)) = m e) \<longrightarrow>
          m (ext v') = m (ext v1)"
  proof
    assume "(\<forall>e. m (snd (sys_MkdirAll sys dest e)) = m e) \<and>
          (\<forall>e. m (snd (sys_exec sys ctx (gitPath c) [] [''clone'', ?P, dest] e)) = m e) \<and>
          (\<forall>e. m (snd (sys_SetUser sys ctx dest (username c) (email c) e)) = m e)"
    then have pm: "m (snd (sys_MkdirAll sys dest (ext v1))) = m (ext v1)"
      and pc: "m (snd (sys_exec sys ctx (gitPath c) [] [''clone'', ?P, dest] d2)) = m d2"
      and ps: "m (snd (sys_SetUser sys ctx dest (username c) (email c) d3)) = m d3"
      by blast+
    from pm mk have "m d2 = m (ext v1)" by simp
    moreover from pc lc have "m d3 = m d2" by simp
    moreover from ps su have "m d4 = m d3" by simp
    ultimately show "m (ext v') = m (ext v1)" using B by simp
  qed
  from ret A B F
  have "Clone sys c ctx base name dest v =
          Returns ((None, Some (Errorf ''failed to set user: %v'' y)),
                   c\<lparr>mu := False, repoLocks := (repoLocks c)(name \<mapsto> False)\<rparr>, v') \<and>
         filter (\<lambda>ev. \<not> is_log ev) (added v1 v') =
           [EvMkdirAll dest, localCloneCmd c name dest, EvSetUser dest (username c) (email c)] \<and>
         ext v' = d4 \<and>
         ((\<forall>e. m (snd (sys_MkdirAll sys dest e)) = m e) \<and>
          (\<forall>e. m (snd (sys_exec sys ctx (gitPath c) [] [''clone'', ?P, dest] e)) = m e) \<and>
          (\<forall>e. m (snd (sys_SetUser sys ctx dest (username c) (email c) e)) = m e) \<longrightarrow>
          m (ext v') = m (ext v1))"
    by (intro conjI)
  then show "\<exists>c' v'. Clone sys c ctx base name dest v =
                  Returns ((None, Some (Errorf ''failed to set user: %v'' y)), c', v') \<and>
         filter (\<lambda>ev. \<not> is_log ev) (added v1 v') =
           [EvMkdirAll dest, localCloneCmd c name dest, EvSetUser dest (username c) (email c)] \<and>
         ext v' = d4 \<and>
         ((\<forall>e. m (snd (sys_MkdirAll sys dest e)) = m e) \<and>
          (\<forall>e. m (snd (sys_exec sys ctx (gitPath c) [] [''clone'', ?P, dest] e)) = m e) \<and>
          (\<forall>e. m (snd (sys_SetUser sys ctx dest (username c) (email c) e)) = m e) \<longrightarrow>
          m (ext v') = m (ext v1))"
    by (intro exI)
qed

lemma pair_with_snd: "fst p = a \<Longrightarrow> p = (a, snd p)"
  by (cases p) simp

theorem failed_checkout_leaves_mirror_witness:
  "(\<exists>c' w'. Clone simSys simClient (Context 0) ''https://github.com'' ''org/repo'' ''/work/dest''
        fullDiskWorld =
      Returns ((None, Some (Errorf ''failed to clone from local: %v'' (ErrOther ''exit status 128''))),
               c', w') \<and>
      sys_Stat simSys ''/tmp/gitcache/org/repo.git'' (ext w') = None) \<and>
   (\<exists>c' w'. Clone noConfigSys botClient (Context 0) ''https://github.com'' ''org/repo'' ''/work/dest''
        cachedWorld =
      Returns ((None, Some (Errorf ''failed to set user: %v'' (ErrOther ''exit status 255''))),
               c', w') \<and>
      sys_Stat noConfigSys ''/tmp/gitcache/org/repo.git'' (ext w') = None)"
proof (intro conjI)
  let ?P = "''/tmp/gitcache/org/repo.git''"
  let ?um = "Clone_updateMirror simSys simClient (Context 0) ''https://github.com'' ''org/repo''
               fullDiskWorld"
  let ?e2 = "snd (sys_MkdirAll simSys ''/work/dest'' (ext (snd ?um)))"
  let ?lc = "sys_exec simSys (Context 0) (gitPath simClient) []
               [''clone'', repoCachePath simClient ''org/repo'', ''/work/dest''] ?e2"
  let ?m = "sys_Stat simSys ?P"
  have free: "unlocked simClient ''org/repo''"
    by (simp add: unlocked_def simClient_def)
  have "fst ?um = None"
    by code_simp
  then have um: "?um = (None, snd ?um)"
    by (rule pair_with_snd)
  have "fst (sys_MkdirAll simSys ''/work/dest'' (ext (snd ?um))) = None"
    by (simp add: simSys_def sim_MkdirAll_def)
  then have mk: "sys_MkdirAll simSys ''/work/dest'' (ext (snd ?um)) = (None, ?e2)"
    by (rule pair_with_snd)
  have "fst ?lc = (''No space left on device'', Some (ErrOther ''exit status 128''))"
    by code_simp
  then have lc: "?lc = ((''No space left on device'', Some (ErrOther ''exit status 128'')), snd ?lc)"
    by (rule pair_with_snd)
  have keep: "(\<forall>e. ?m (snd (sys_MkdirAll simSys ''/work/dest'' e)) = ?m e) \<and>
     (\<forall>e. ?m (snd (sys_exec simSys (Context 0) (gitPath simClient) []
              [''clone'', repoCachePath simClient ''org/repo'', ''/work/dest''] e)) = ?m e)"
    by (auto simp: simSys_def sim_MkdirAll_def sim_Stat_def sim_exec_def
        split: list.splits option.splits)
  have before: "?m (ext (snd ?um)) = None"
    by code_simp
  from failed_checkout_leaves_mirror [where m = ?m, THEN conjunct1, rule_format,
      OF conjI [OF free conjI [OF um conjI [OF mk lc]]]]
  obtain c' w' where
      r: "Clone simSys simClient (Context 0) ''https://github.com'' ''org/repo'' ''/work/dest''
            fullDiskWorld =
          Returns ((None, Some (Errorf ''failed to clone from local: %v'' (ErrOther ''exit status 128''))),
                   c', w')"
    and k: "(\<forall>e. ?m (snd (sys_MkdirAll simSys ''/work/dest'' e)) = ?m e) \<and>
     (\<forall>e. ?m (snd (sys_exec simSys (Context 0) (gitPath simClient) []
              [''clone'', repoCachePath simClient ''org/repo'', ''/work/dest''] e)) = ?m e) \<longrightarrow>
       ?m (ext w') = ?m (ext (snd ?um))"
    by (elim exE conjE)
  from k keep have "?m (ext w') = ?m (ext (snd ?um))"
    by (rule mp)
  with before have "?m (ext w') = None"
    by simp
  with r have "Clone simSys simClient (Context 0) ''https://github.com'' ''org/repo'' ''/work/dest''
        fullDiskWorld =
      Returns ((None, Some (Errorf ''failed to clone from local: %v'' (ErrOther ''exit status 128''))),
               c', w') \<and> ?m (ext w') = None"
    by (intro conjI)
  then show "\<exists>c' w'. Clone simSys simClient (Context 0) ''https://github.com'' ''org/repo'' ''/work/dest''
        fullDiskWorld =
      Returns ((None, Some (Errorf ''failed to clone from local: %v'' (ErrOther ''exit status 128''))),
               c', w') \<and> ?m (ext w') = None"
    by (intro exI)
next
  let ?P = "''/tmp/gitcache/org/repo.git''"
  let ?um = "Clone_updateMirror noConfigSys botClient (Context 0) ''https://github.com'' ''org/repo''
               cachedWorld"
  let ?e2 = "snd (sys_MkdirAll noConfigSys ''/work/dest'' (ext (snd ?um)))"
  let ?lc = "sys_exec noConfigSys (Context 0) (gitPath botClient) []
               [''clone'', repoCachePath botClient ''org/repo'', ''/work/dest''] ?e2"
  let ?su = "sys_SetUser noConfigSys (Context 0) ''/work/dest'' (username botClient) (email botClient)
               (snd ?lc)"
  let ?m = "sys_Stat noConfigSys ?P"
  have free: "unlocked botClient ''org/repo''"
    by (simp add: unlocked_def botClient_def simClient_def)
  have "fst ?um = None"
    by code_simp
  then have um: "?um = (None, snd ?um)"
    by (rule pair_with_snd)
  have "fst (sys_MkdirAll noConfigSys ''/work/dest'' (ext (snd ?um))) = None"
    by (simp add: noConfigSys_def simSys_def sim_MkdirAll_def)
  then have mk: "sys_MkdirAll noConfigSys ''/work/dest'' (ext (snd ?um)) = (None, ?e2)"
    by (rule pair_with_snd)
  have "fst ?lc = ([], None)"
    by code_simp
  then have lc: "?lc = (([], None), snd ?lc)"
    by (rule pair_with_snd)
  have ident: "username botClient \<noteq> [] \<or> email botClient \<noteq> []"
    by (simp add: botClient_def)
  have "fst ?su = Some (ErrOther ''exit status 255'')"
    by (simp add: noConfigSys_def)
  then have su: "?su = (Some (ErrOther ''exit status 255''), snd ?su)"
    by (rule pair_with_snd)
  have keep: "(\<forall>e. ?m (snd (sys_MkdirAll noConfigSys ''/work/dest'' e)) = ?m e) \<and>
     (\<forall>e. ?m (snd (sys_exec noConfigSys (Context 0) (gitPath botClient) []
              [''clone'', repoCachePath botClient ''org/repo'', ''/work/dest''] e)) = ?m e) \<and>
     (\<forall>e. ?m (snd (sys_SetUser noConfigSys (Context 0) ''/work/dest'' (username botClient)
              (email botClient) e)) = ?m e)"
    by (auto simp: noConfigSys_def simSys_def sim_MkdirAll_def sim_Stat_def sim_exec_def
        split: list.splits option.splits)
  have before: "?m (ext (snd ?um)) = None"
    by code_simp
  from failed_checkout_leaves_mirror [where m = ?m, THEN conjunct2, rule_format,
      OF conjI [OF free conjI [OF um conjI [OF mk conjI [OF lc conjI [OF ident su]]]]]]
  obtain c' w' where
      r: "Clone noConfigSys botClient (Context 0) ''https://github.com'' ''org/repo'' ''/work/dest''
            cachedWorld =
          Returns ((None, Some (Errorf ''failed to set user: %v'' (ErrOther ''exit status 255''))),
                   c', w')"
    and k: "(\<forall>e. ?m (snd (sys_MkdirAll noConfigSys ''/work/dest'' e)) = ?m e) \<and>
     (\<forall>e. ?m (snd (sys_exec noConfigSys (Context 0) (gitPath botClient) []
              [''clone'', repoCachePath botClient ''org/repo'', ''/work/dest''] e)) = ?m e) \<and>
     (\<forall>e. ?m (snd (sys_SetUser noConfigSys (Context 0) ''/work/dest'' (username botClient)
              (email botClient) e)) = ?m e) \<longrightarrow>
       ?m (ext w') = ?m (ext (snd ?um))"
    by (elim exE conjE)
  from k keep have "?m (ext w') = ?m (ext (snd ?um))"
    by (rule mp)
  with before have "?m (ext w') = None"
    by simp
  with r have "Clone noConfigSys botClient (Context 0) ''https://github.com'' ''org/repo'' ''/work/dest''
        cachedWorld =
      Returns ((None, Some (Errorf ''failed to set user: %v'' (ErrOther ''exit status 255''))),
               c', w') \<and> ?m (ext w') = None"
    by (intro conjI)
  then show "\<exists>c' w'. Clone noConfigSys botClient (Context 0) ''https://github.com'' ''org/repo'' ''/work/dest''
        cachedWorld =
      Returns ((None, Some (Errorf ''failed to set user: %v'' (ErrOther ''exit status 255''))),
               c', w') \<and> ?m (ext w') = None"
    by (intro exI)
qed

subsection \<open>The per-repository locks under any schedule\<close>

text \<open>The initial configuration is coherent, and every statement keeps it so.\<close>

lemma coherent_initial: "coherent initial"
  by (simp add: coherent_def initial_def)

lemma hasPtr_hasEntry: "hasPtr p \<Longrightarrow> hasEntry p"
  by (cases p) simp_all

lemma holds_hasEntry: "holds p \<Longrightarrow> hasEntry p"
  by (cases p) simp_all

lemma coherentD:
  assumes "coherent C"
  shows "inReg (line (gos C t)) \<Longrightarrow> reg_mu (reg C)"
    and "t \<noteq> u \<Longrightarrow> inReg (line (gos C t)) \<Longrightarrow> \<not> inReg (line (gos C u))"
    and "hasEntry (line (gos C t)) \<Longrightarrow> \<exists>a. reg_locks (reg C) (key (gos C t)) = Some a"
    and "hasPtr (line (gos C t)) \<Longrightarrow> local_mu (gos C t) = reg_locks (reg C) (key (gos C t))"
    and "reg_locks (reg C) k = Some a \<Longrightarrow> a < allocated (reg C)"
    and "k \<noteq> k' \<Longrightarrow> reg_locks (reg C) k = Some a \<Longrightarrow> reg_locks (reg C) k' \<noteq> Some a"
    and "holds (line (gos C t)) \<Longrightarrow> reg_locks (reg C) (key (gos C t)) = Some a \<Longrightarrow> locked (reg C) a"
    and "t \<noteq> u \<Longrightarrow> holds (line (gos C t)) \<Longrightarrow> key (gos C t) = key (gos C u) \<Longrightarrow>
         \<not> holds (line (gos C u))"
    and "reg_locks (reg C) k = Some a \<Longrightarrow> locked (reg C) a \<Longrightarrow>
         \<exists>t. holds (line (gos C t)) \<and> key (gos C t) = k"
    and "reg_mu (reg C) \<Longrightarrow> \<exists>t. inReg (line (gos C t))"
    and "line (gos C t) = L173 \<Longrightarrow> reg_locks (reg C) (key (gos C t)) = None"
  using assms unfolding coherent_def by auto

lemma fire_Idle:
  assumes "coherent C" and "fire t k C = Returns C'" and "line (gos C t) = Idle"
  shows "coherent C'"
proof -
  from assms(2,3) have C': "C' = C\<lparr>gos := (gos C)(t := \<lparr>line = L171, key = k, local_mu = None\<rparr>)\<rparr>"
    by (simp add: fire_def Let_def)
  note D = coherentD [OF assms(1)]
  note here = assms(3)
  have busy: "reg_mu (reg C) \<Longrightarrow> inReg (line (gos C t)) \<or> (\<exists>u. u \<noteq> t \<and> inReg (line (gos C u)))"
    using D(10) by (cases "inReg (line (gos C t))") auto
  show ?thesis
    unfolding C' coherent_def goto_def
    apply (intro conjI allI impI)
    subgoal for u using D(1) [of u] D(2) [of t u] here  by (auto split: if_splits)
    subgoal for u v using D(2) [of u v] D(2) [of u t] D(2) [of t v] D(1) [of u] D(1) [of v] here 
      by (auto split: if_splits)
    subgoal for u using D(3) [of u] D(3) [of t] here  by (auto split: if_splits)
    subgoal for u using D(4) [of u] D(3) [of u] hasPtr_hasEntry [of "line (gos C u)"] here 
      by (auto split: if_splits)
    subgoal for k a using D(5) [of k a] here  by (auto split: if_splits)
    subgoal for k k' a using D(6) [of k k' a] D(5) [of k a] D(5) [of k' a] here 
      by (auto split: if_splits)
    subgoal for u a using D(7) [of u a] D(7) [of t a] D(8) [of t u] D(8) [of u t]
        D(6) [of "key (gos C u)" "key (gos C t)" a] D(6) [of "key (gos C t)" "key (gos C u)" a]
        D(5) [of "key (gos C u)" a] D(3) [of u] D(4) [of t] holds_hasEntry [of "line (gos C u)"] here 
      by (auto split: if_splits, blast?)
    subgoal for u v using D(8) [of u v] D(8) [of t v] D(8) [of u t] D(7) [of u] D(7) [of v] D(4) [of t]
        D(3) [of t] D(3) [of u] D(3) [of v] holds_hasEntry [of "line (gos C u)"]
        holds_hasEntry [of "line (gos C v)"] here 
      by (auto split: if_splits)
    subgoal for k a using D(9) [of k a] D(6) [of k "key (gos C t)" a] D(6) [of "key (gos C t)" k a]
        D(4) [of t] D(3) [of t] D(5) [of k a] D(8) [of t] here 
      by (auto split: if_splits, (metis holds.simps)?)
    subgoal using busy D(1) [of t] here  by (auto split: if_splits)
    subgoal for u using D(11) [of u] D(11) [of t] D(2) [of t u] D(2) [of u t] D(3) [of u] here 
      by (auto split: if_splits)
    done
qed

lemma fire_L171:
  assumes "coherent C" and "fire t k C = Returns C'" and "line (gos C t) = L171"
  shows "coherent C'"
proof -
  from assms(2,3) have free: "\<not> reg_mu (reg C)"
    and C': "C' = goto t L172 (C\<lparr>reg := (reg C)\<lparr>reg_mu := True\<rparr>\<rparr>)"
    by (simp_all add: fire_def Let_def split: if_splits)
  note D = coherentD [OF assms(1)]
  note here = assms(3)
  have busy: "reg_mu (reg C) \<Longrightarrow> inReg (line (gos C t)) \<or> (\<exists>u. u \<noteq> t \<and> inReg (line (gos C u)))"
    using D(10) by (cases "inReg (line (gos C t))") auto
  show ?thesis
    unfolding C' coherent_def goto_def
    apply (intro conjI allI impI)
    subgoal for u using D(1) [of u] D(2) [of t u] here free by (auto split: if_splits)
    subgoal for u v using D(2) [of u v] D(2) [of u t] D(2) [of t v] D(1) [of u] D(1) [of v] here free
      by (auto split: if_splits)
    subgoal for u using D(3) [of u] D(3) [of t] here free by (auto split: if_splits)
    subgoal for u using D(4) [of u] D(3) [of u] hasPtr_hasEntry [of "line (gos C u)"] here free
      by (auto split: if_splits)
    subgoal for k a using D(5) [of k a] here free by (auto split: if_splits)
    subgoal for k k' a using D(6) [of k k' a] D(5) [of k a] D(5) [of k' a] here free
      by (auto split: if_splits)
    subgoal for u a using D(7) [of u a] D(7) [of t a] D(8) [of t u] D(8) [of u t]
        D(6) [of "key (gos C u)" "key (gos C t)" a] D(6) [of "key (gos C t)" "key (gos C u)" a]
        D(5) [of "key (gos C u)" a] D(3) [of u] D(4) [of t] holds_hasEntry [of "line (gos C u)"] here free
      by (auto split: if_splits, blast?)
    subgoal for u v using D(8) [of u v] D(8) [of t v] D(8) [of u t] D(7) [of u] D(7) [of v] D(4) [of t]
        D(3) [of t] D(3) [of u] D(3) [of v] holds_hasEntry [of "line (gos C u)"]
        holds_hasEntry [of "line (gos C v)"] here free
      by (auto split: if_splits)
    subgoal for k a using D(9) [of k a] D(6) [of k "key (gos C t)" a] D(6) [of "key (gos C t)" k a]
        D(4) [of t] D(3) [of t] D(5) [of k a] D(8) [of t] here free
      by (auto split: if_splits, (metis holds.simps)?)
    subgoal using busy D(1) [of t] here free by (auto split: if_splits)
    subgoal for u using D(11) [of u] D(11) [of t] D(2) [of t u] D(2) [of u t] D(3) [of u] here free
      by (auto split: if_splits)
    done
qed

lemma fire_L172:
  assumes "coherent C" and "fire t k C = Returns C'" and "line (gos C t) = L172"
  shows "coherent C'"
proof (cases "reg_locks (reg C) (key (gos C t))")
  case None
  with assms(2,3) have C': "C' = goto t L173 C"
    by (simp add: fire_def Let_def)
  note D = coherentD [OF assms(1)]
  note here = assms(3)
  have busy: "reg_mu (reg C) \<Longrightarrow> inReg (line (gos C t)) \<or> (\<exists>u. u \<noteq> t \<and> inReg (line (gos C u)))"
    using D(10) by (cases "inReg (line (gos C t))") auto
  show ?thesis
    unfolding C' coherent_def goto_def
    apply (intro conjI allI impI)
    subgoal for u using D(1) [of u] D(2) [of t u] here None by (auto split: if_splits)
    subgoal for u v using D(2) [of u v] D(2) [of u t] D(2) [of t v] D(1) [of u] D(1) [of v] here None
      by (auto split: if_splits)
    subgoal for u using D(3) [of u] D(3) [of t] here None by (auto split: if_splits)
    subgoal for u using D(4) [of u] D(3) [of u] hasPtr_hasEntry [of "line (gos C u)"] here None
      by (auto split: if_splits)
    subgoal for k a using D(5) [of k a] here None by (auto split: if_splits)
    subgoal for k k' a using D(6) [of k k' a] D(5) [of k a] D(5) [of k' a] here None
      by (auto split: if_splits)
    subgoal for u a using D(7) [of u a] D(7) [of t a] D(8) [of t u] D(8) [of u t]
        D(6) [of "key (gos C u)" "key (gos C t)" a] D(6) [of "key (gos C t)" "key (gos C u)" a]
        D(5) [of "key (gos C u)" a] D(3) [of u] D(4) [of t] holds_hasEntry [of "line (gos C u)"] here None
      by (auto split: if_splits, blast?)
    subgoal for u v using D(8) [of u v] D(8) [of t v] D(8) [of u t] D(7) [of u] D(7) [of v] D(4) [of t]
        D(3) [of t] D(3) [of u] D(3) [of v] holds_hasEntry [of "line (gos C u)"]
        holds_hasEntry [of "line (gos C v)"] here None
      by (auto split: if_splits)
    subgoal for k a using D(9) [of k a] D(6) [of k "key (gos C t)" a] D(6) [of "key (gos C t)" k a]
        D(4) [of t] D(3) [of t] D(5) [of k a] D(8) [of t] here None
      by (auto split: if_splits, (metis holds.simps)?)
    subgoal using busy D(1) [of t] here None by (auto split: if_splits)
    subgoal for u using D(11) [of u] D(11) [of t] D(2) [of t u] D(2) [of u t] D(3) [of u] here None
      by (auto split: if_splits)
    done
next
  case (Some a0)
  with assms(2,3) have C': "C' = goto t L175 C"
    by (simp add: fire_def Let_def)
  note D = coherentD [OF assms(1)]
  note here = assms(3)
  have busy: "reg_mu (reg C) \<Longrightarrow> inReg (line (gos C t)) \<or> (\<exists>u. u \<noteq> t \<and> inReg (line (gos C u)))"
    using D(10) by (cases "inReg (line (gos C t))") auto
  show ?thesis
    unfolding C' coherent_def goto_def
    apply (intro conjI allI impI)
    subgoal for u using D(1) [of u] D(2) [of t u] here Some by (auto split: if_splits)
    subgoal for u v using D(2) [of u v] D(2) [of u t] D(2) [of t v] D(1) [of u] D(1) [of v] here Some
      by (auto split: if_splits)
    subgoal for u using D(3) [of u] D(3) [of t] here Some by (auto split: if_splits)
    subgoal for u using D(4) [of u] D(3) [of u] hasPtr_hasEntry [of "line (gos C u)"] here Some
      by (auto split: if_splits)
    subgoal for k a using D(5) [of k a] here Some by (auto split: if_splits)
    subgoal for k k' a using D(6) [of k k' a] D(5) [of k a] D(5) [of k' a] here Some
      by (auto split: if_splits)
    subgoal for u a using D(7) [of u a] D(7) [of t a] D(8) [of t u] D(8) [of u t]
        D(6) [of "key (gos C u)" "key (gos C t)" a] D(6) [of "key (gos C t)" "key (gos C u)" a]
        D(5) [of "key (gos C u)" a] D(3) [of u] D(4) [of t] holds_hasEntry [of "line (gos C u)"] here Some
      by (auto split: if_splits, blast?)
    subgoal for u v using D(8) [of u v] D(8) [of t v] D(8) [of u t] D(7) [of u] D(7) [of v] D(4) [of t]
        D(3) [of t] D(3) [of u] D(3) [of v] holds_hasEntry [of "line (gos C u)"]
        holds_hasEntry [of "line (gos C v)"] here Some
      by (auto split: if_splits)
    subgoal for k a using D(9) [of k a] D(6) [of k "key (gos C t)" a] D(6) [of "key (gos C t)" k a]
        D(4) [of t] D(3) [of t] D(5) [of k a] D(8) [of t] here Some
      by (auto split: if_splits, (metis holds.simps)?)
    subgoal using busy D(1) [of t] here Some by (auto split: if_splits)
    subgoal for u using D(11) [of u] D(11) [of t] D(2) [of t u] D(2) [of u t] D(3) [of u] here Some
      by (auto split: if_splits)
    done
qed

lemma fire_L173:
  assumes "coherent C" and "fire t k C = Returns C'" and "line (gos C t) = L173"
  shows "coherent C'"
proof -
  from assms(2,3) have C': "C' = goto t L175
      (C\<lparr>reg := (reg C)\<lparr>reg_locks := (reg_locks (reg C))(key (gos C t) \<mapsto> allocated (reg C)),
                         locked := (locked (reg C))(allocated (reg C) := False),
                         allocated := allocated (reg C) + 1\<rparr>\<rparr>)"
    by (simp add: fire_def Let_def)
  from coherentD(11) [OF assms(1,3)] have none: "reg_locks (reg C) (key (gos C t)) = None" .
  note D = coherentD [OF assms(1)]
  note here = assms(3)
  have busy: "reg_mu (reg C) \<Longrightarrow> inReg (line (gos C t)) \<or> (\<exists>u. u \<noteq> t \<and> inReg (line (gos C u)))"
    using D(10) by (cases "inReg (line (gos C t))") auto
  show ?thesis
    unfolding C' coherent_def goto_def
    apply (intro conjI allI impI)
    subgoal for u using D(1) [of u] D(2) [of t u] here none by (auto split: if_splits)
    subgoal for u v using D(2) [of u v] D(2) [of u t] D(2) [of t v] D(1) [of u] D(1) [of v] here none
      by (auto split: if_splits)
    subgoal for u using D(3) [of u] D(3) [of t] here none by (auto split: if_splits)
    subgoal for u using D(4) [of u] D(3) [of u] hasPtr_hasEntry [of "line (gos C u)"] here none
      by (auto split: if_splits)
    subgoal for k a using D(5) [of k a] here none by (auto split: if_splits)
    subgoal for k k' a using D(6) [of k k' a] D(5) [of k a] D(5) [of k' a] here none
      by (auto split: if_splits)
    subgoal for u a using D(7) [of u a] D(7) [of t a] D(8) [of t u] D(8) [of u t]
        D(6) [of "key (gos C u)" "key (gos C t)" a] D(6) [of "key (gos C t)" "key (gos C u)" a]
        D(5) [of "key (gos C u)" a] D(3) [of u] D(4) [of t] holds_hasEntry [of "line (gos C u)"] here none
      by (auto split: if_splits, blast?)
    subgoal for u v using D(8) [of u v] D(8) [of t v] D(8) [of u t] D(7) [of u] D(7) [of v] D(4) [of t]
        D(3) [of t] D(3) [of u] D(3) [of v] holds_hasEntry [of "line (gos C u)"]
        holds_hasEntry [of "line (gos C v)"] here none
      by (auto split: if_splits)
    subgoal for k a using D(9) [of k a] D(6) [of k "key (gos C t)" a] D(6) [of "key (gos C t)" k a]
        D(4) [of t] D(3) [of t] D(5) [of k a] D(8) [of t] here none
      by (auto split: if_splits, (metis holds.simps)?)
    subgoal using busy D(1) [of t] here none by (auto split: if_splits)
    subgoal for u using D(11) [of u] D(11) [of t] D(2) [of t u] D(2) [of u t] D(3) [of u] here none
      by (auto split: if_splits)
    done
qed

lemma fire_L175:
  assumes "coherent C" and "fire t k C = Returns C'" and "line (gos C t) = L175"
  shows "coherent C'"
proof -
  from assms(2,3) have C': "C' = C\<lparr>gos := (gos C)(t := (gos C t)
      \<lparr>line := L176, local_mu := reg_locks (reg C) (key (gos C t))\<rparr>)\<rparr>"
    by (simp add: fire_def Let_def)
  note D = coherentD [OF assms(1)]
  note here = assms(3)
  have busy: "reg_mu (reg C) \<Longrightarrow> inReg (line (gos C t)) \<or> (\<exists>u. u \<noteq> t \<and> inReg (line (gos C u)))"
    using D(10) by (cases "inReg (line (gos C t))") auto
  show ?thesis
    unfolding C' coherent_def goto_def
    apply (intro conjI allI impI)
    subgoal for u using D(1) [of u] D(2) [of t u] here  by (auto split: if_splits)
    subgoal for u v using D(2) [of u v] D(2) [of u t] D(2) [of t v] D(1) [of u] D(1) [of v] here 
      by (auto split: if_splits)
    subgoal for u using D(3) [of u] D(3) [of t] here  by (auto split: if_splits)
    subgoal for u using D(4) [of u] D(3) [of u] hasPtr_hasEntry [of "line (gos C u)"] here 
      by (auto split: if_splits)
    subgoal for k a using D(5) [of k a] here  by (auto split: if_splits)
    subgoal for k k' a using D(6) [of k k' a] D(5) [of k a] D(5) [of k' a] here 
      by (auto split: if_splits)
    subgoal for u a using D(7) [of u a] D(7) [of t a] D(8) [of t u] D(8) [of u t]
        D(6) [of "key (gos C u)" "key (gos C t)" a] D(6) [of "key (gos C t)" "key (gos C u)" a]
        D(5) [of "key (gos C u)" a] D(3) [of u] D(4) [of t] holds_hasEntry [of "line (gos C u)"] here 
      by (auto split: if_splits, blast?)
    subgoal for u v using D(8) [of u v] D(8) [of t v] D(8) [of u t] D(7) [of u] D(7) [of v] D(4) [of t]
        D(3) [of t] D(3) [of u] D(3) [of v] holds_hasEntry [of "line (gos C u)"]
        holds_hasEntry [of "line (gos C v)"] here 
      by (auto split: if_splits)
    subgoal for k a using D(9) [of k a] D(6) [of k "key (gos C t)" a] D(6) [of "key (gos C t)" k a]
        D(4) [of t] D(3) [of t] D(5) [of k a] D(8) [of t] here 
      by (auto split: if_splits, (metis holds.simps)?)
    subgoal using busy D(1) [of t] here  by (auto split: if_splits)
    subgoal for u using D(11) [of u] D(11) [of t] D(2) [of t u] D(2) [of u t] D(3) [of u] here 
      by (auto split: if_splits)
    done
qed

lemma fire_L176:
  assumes "coherent C" and "fire t k C = Returns C'" and "line (gos C t) = L176"
  shows "coherent C'"
proof -
  from assms(2,3) have C': "C' = goto t L178 (C\<lparr>reg := (reg C)\<lparr>reg_mu := False\<rparr>\<rparr>)"
    by (simp add: fire_def Let_def split: if_splits)
  note D = coherentD [OF assms(1)]
  note here = assms(3)
  have busy: "reg_mu (reg C) \<Longrightarrow> inReg (line (gos C t)) \<or> (\<exists>u. u \<noteq> t \<and> inReg (line (gos C u)))"
    using D(10) by (cases "inReg (line (gos C t))") auto
  show ?thesis
    unfolding C' coherent_def goto_def
    apply (intro conjI allI impI)
    subgoal for u using D(1) [of u] D(2) [of t u] here  by (auto split: if_splits)
    subgoal for u v using D(2) [of u v] D(2) [of u t] D(2) [of t v] D(1) [of u] D(1) [of v] here 
      by (auto split: if_splits)
    subgoal for u using D(3) [of u] D(3) [of t] here  by (auto split: if_splits)
    subgoal for u using D(4) [of u] D(3) [of u] hasPtr_hasEntry [of "line (gos C u)"] here 
      by (auto split: if_splits)
    subgoal for k a using D(5) [of k a] here  by (auto split: if_splits)
    subgoal for k k' a using D(6) [of k k' a] D(5) [of k a] D(5) [of k' a] here 
      by (auto split: if_splits)
    subgoal for u a using D(7) [of u a] D(7) [of t a] D(8) [of t u] D(8) [of u t]
        D(6) [of "key (gos C u)" "key (gos C t)" a] D(6) [of "key (gos C t)" "key (gos C u)" a]
        D(5) [of "key (gos C u)" a] D(3) [of u] D(4) [of t] holds_hasEntry [of "line (gos C u)"] here 
      by (auto split: if_splits, blast?)
    subgoal for u v using D(8) [of u v] D(8) [of t v] D(8) [of u t] D(7) [of u] D(7) [of v] D(4) [of t]
        D(3) [of t] D(3) [of u] D(3) [of v] holds_hasEntry [of "line (gos C u)"]
        holds_hasEntry [of "line (gos C v)"] here 
      by (auto split: if_splits)
    subgoal for k a using D(9) [of k a] D(6) [of k "key (gos C t)" a] D(6) [of "key (gos C t)" k a]
        D(4) [of t] D(3) [of t] D(5) [of k a] D(8) [of t] here 
      by (auto split: if_splits, (metis holds.simps)?)
    subgoal using busy D(1) [of t] here  by (auto split: if_splits)
    subgoal for u using D(11) [of u] D(11) [of t] D(2) [of t u] D(2) [of u t] D(3) [of u] here 
      by (auto split: if_splits)
    done
qed

lemma fire_L178:
  assumes "coherent C" and "fire t k C = Returns C'" and "line (gos C t) = L178"
  shows "coherent C'"
proof -
  from assms(2,3) obtain a0 where a0: "local_mu (gos C t) = Some a0" and free: "\<not> locked (reg C) a0"
    and C': "C' = goto t InBody (C\<lparr>reg := (reg C)\<lparr>locked := (locked (reg C))(a0 := True)\<rparr>\<rparr>)"
    by (auto simp: fire_def Let_def split: option.splits if_splits)
  note D = coherentD [OF assms(1)]
  note here = assms(3)
  have busy: "reg_mu (reg C) \<Longrightarrow> inReg (line (gos C t)) \<or> (\<exists>u. u \<noteq> t \<and> inReg (line (gos C u)))"
    using D(10) by (cases "inReg (line (gos C t))") auto
  show ?thesis
    unfolding C' coherent_def goto_def
    apply (intro conjI allI impI)
    subgoal for u using D(1) [of u] D(2) [of t u] here a0 free by (auto split: if_splits)
    subgoal for u v using D(2) [of u v] D(2) [of u t] D(2) [of t v] D(1) [of u] D(1) [of v] here a0 free
      by (auto split: if_splits)
    subgoal for u using D(3) [of u] D(3) [of t] here a0 free by (auto split: if_splits)
    subgoal for u using D(4) [of u] D(3) [of u] hasPtr_hasEntry [of "line (gos C u)"] here a0 free
      by (auto split: if_splits)
    subgoal for k a using D(5) [of k a] here a0 free by (auto split: if_splits)
    subgoal for k k' a using D(6) [of k k' a] D(5) [of k a] D(5) [of k' a] here a0 free
      by (auto split: if_splits)
    subgoal for u a using D(7) [of u a] D(7) [of t a] D(8) [of t u] D(8) [of u t]
        D(6) [of "key (gos C u)" "key (gos C t)" a] D(6) [of "key (gos C t)" "key (gos C u)" a]
        D(5) [of "key (gos C u)" a] D(3) [of u] D(4) [of t] holds_hasEntry [of "line (gos C u)"] here a0 free
      by (auto split: if_splits, blast?)
    subgoal for u v using D(8) [of u v] D(8) [of t v] D(8) [of u t] D(7) [of u] D(7) [of v] D(4) [of t]
        D(3) [of t] D(3) [of u] D(3) [of v] holds_hasEntry [of "line (gos C u)"]
        holds_hasEntry [of "line (gos C v)"] here a0 free
      by (auto split: if_splits)
    subgoal for k a using D(9) [of k a] D(6) [of k "key (gos C t)" a] D(6) [of "key (gos C t)" k a]
        D(4) [of t] D(3) [of t] D(5) [of k a] D(8) [of t] here a0 free
      by (auto split: if_splits, (metis holds.simps)?)
    subgoal using busy D(1) [of t] here a0 free by (auto split: if_splits)
    subgoal for u using D(11) [of u] D(11) [of t] D(2) [of t u] D(2) [of u t] D(3) [of u] here a0 free
      by (auto split: if_splits)
    done
qed

lemma fire_InBody:
  assumes "coherent C" and "fire t k C = Returns C'" and "line (gos C t) = InBody"
  shows "coherent C'"
proof -
  from assms(2,3) have C': "C' = goto t L182 C"
    by (simp add: fire_def Let_def)
  note D = coherentD [OF assms(1)]
  note here = assms(3)
  have busy: "reg_mu (reg C) \<Longrightarrow> inReg (line (gos C t)) \<or> (\<exists>u. u \<noteq> t \<and> inReg (line (gos C u)))"
    using D(10) by (cases "inReg (line (gos C t))") auto
  show ?thesis
    unfolding C' coherent_def goto_def
    apply (intro conjI allI impI)
    subgoal for u using D(1) [of u] D(2) [of t u] here  by (auto split: if_splits)
    subgoal for u v using D(2) [of u v] D(2) [of u t] D(2) [of t v] D(1) [of u] D(1) [of v] here 
      by (auto split: if_splits)
    subgoal for u using D(3) [of u] D(3) [of t] here  by (auto split: if_splits)
    subgoal for u using D(4) [of u] D(3) [of u] hasPtr_hasEntry [of "line (gos C u)"] here 
      by (auto split: if_splits)
    subgoal for k a using D(5) [of k a] here  by (auto split: if_splits)
    subgoal for k k' a using D(6) [of k k' a] D(5) [of k a] D(5) [of k' a] here 
      by (auto split: if_splits)
    subgoal for u a using D(7) [of u a] D(7) [of t a] D(8) [of t u] D(8) [of u t]
        D(6) [of "key (gos C u)" "key (gos C t)" a] D(6) [of "key (gos C t)" "key (gos C u)" a]
        D(5) [of "key (gos C u)" a] D(3) [of u] D(4) [of t] holds_hasEntry [of "line (gos C u)"] here 
      by (auto split: if_splits, blast?)
    subgoal for u v using D(8) [of u v] D(8) [of t v] D(8) [of u t] D(7) [of u] D(7) [of v] D(4) [of t]
        D(3) [of t] D(3) [of u] D(3) [of v] holds_hasEntry [of "line (gos C u)"]
        holds_hasEntry [of "line (gos C v)"] here 
      by (auto split: if_splits)
    subgoal for k a using D(9) [of k a] D(6) [of k "key (gos C t)" a] D(6) [of "key (gos C t)" k a]
        D(4) [of t] D(3) [of t] D(5) [of k a] D(8) [of t] here 
      by (auto split: if_splits, (metis holds.simps)?)
    subgoal using busy D(1) [of t] here  by (auto split: if_splits)
    subgoal for u using D(11) [of u] D(11) [of t] D(2) [of t u] D(2) [of u t] D(3) [of u] here 
      by (auto split: if_splits)
    done
qed

lemma fire_L182:
  assumes "coherent C" and "fire t k C = Returns C'" and "line (gos C t) = L182"
  shows "coherent C'"
proof -
  from assms(2,3) have free: "\<not> reg_mu (reg C)"
    and C': "C' = goto t L183 (C\<lparr>reg := (reg C)\<lparr>reg_mu := True\<rparr>\<rparr>)"
    by (simp_all add: fire_def Let_def split: if_splits)
  note D = coherentD [OF assms(1)]
  note here = assms(3)
  have busy: "reg_mu (reg C) \<Longrightarrow> inReg (line (gos C t)) \<or> (\<exists>u. u \<noteq> t \<and> inReg (line (gos C u)))"
    using D(10) by (cases "inReg (line (gos C t))") auto
  show ?thesis
    unfolding C' coherent_def goto_def
    apply (intro conjI allI impI)
    subgoal for u using D(1) [of u] D(2) [of t u] here free by (auto split: if_splits)
    subgoal for u v using D(2) [of u v] D(2) [of u t] D(2) [of t v] D(1) [of u] D(1) [of v] here free
      by (auto split: if_splits)
    subgoal for u using D(3) [of u] D(3) [of t] here free by (auto split: if_splits)
    subgoal for u using D(4) [of u] D(3) [of u] hasPtr_hasEntry [of "line (gos C u)"] here free
      by (auto split: if_splits)
    subgoal for k a using D(5) [of k a] here free by (auto split: if_splits)
    subgoal for k k' a using D(6) [of k k' a] D(5) [of k a] D(5) [of k' a] here free
      by (auto split: if_splits)
    subgoal for u a using D(7) [of u a] D(7) [of t a] D(8) [of t u] D(8) [of u t]
        D(6) [of "key (gos C u)" "key (gos C t)" a] D(6) [of "key (gos C t)" "key (gos C u)" a]
        D(5) [of "key (gos C u)" a] D(3) [of u] D(4) [of t] holds_hasEntry [of "line (gos C u)"] here free
      by (auto split: if_splits, blast?)
    subgoal for u v using D(8) [of u v] D(8) [of t v] D(8) [of u t] D(7) [of u] D(7) [of v] D(4) [of t]
        D(3) [of t] D(3) [of u] D(3) [of v] holds_hasEntry [of "line (gos C u)"]
        holds_hasEntry [of "line (gos C v)"] here free
      by (auto split: if_splits)
    subgoal for k a using D(9) [of k a] D(6) [of k "key (gos C t)" a] D(6) [of "key (gos C t)" k a]
        D(4) [of t] D(3) [of t] D(5) [of k a] D(8) [of t] here free
      by (auto split: if_splits, (metis holds.simps)?)
    subgoal using busy D(1) [of t] here free by (auto split: if_splits)
    subgoal for u using D(11) [of u] D(11) [of t] D(2) [of t u] D(2) [of u t] D(3) [of u] here free
      by (auto split: if_splits)
    done
qed

lemma fire_L183:
  assumes "coherent C" and "fire t k C = Returns C'" and "line (gos C t) = L183"
  shows "coherent C'"
proof -
  from assms(2,3) obtain a0 where a0: "reg_locks (reg C) (key (gos C t)) = Some a0"
    and C': "C' = goto t L184 (C\<lparr>reg := (reg C)\<lparr>locked := (locked (reg C))(a0 := False)\<rparr>\<rparr>)"
    by (auto simp: fire_def Let_def split: option.splits if_splits)
  note D = coherentD [OF assms(1)]
  note here = assms(3)
  have busy: "reg_mu (reg C) \<Longrightarrow> inReg (line (gos C t)) \<or> (\<exists>u. u \<noteq> t \<and> inReg (line (gos C u)))"
    using D(10) by (cases "inReg (line (gos C t))") auto
  have others: "\<forall>k a. reg_locks (reg C) k = Some a \<longrightarrow> a \<noteq> a0 \<longrightarrow> locked (reg C) a \<longrightarrow>
      (\<exists>u. u \<noteq> t \<and> holds (line (gos C u)) \<and> key (gos C u) = k)"
  proof (intro allI impI)
    fix k a
    assume k: "reg_locks (reg C) k = Some a" and "a \<noteq> a0" and "locked (reg C) a"
    with D(9) obtain u where u: "holds (line (gos C u))" "key (gos C u) = k"
      by blast
    with k a0 \<open>a \<noteq> a0\<close> have "u \<noteq> t"
      by auto
    with u show "\<exists>u. u \<noteq> t \<and> holds (line (gos C u)) \<and> key (gos C u) = k"
      by blast
  qed
  show ?thesis
    unfolding C' coherent_def goto_def
    apply (intro conjI allI impI)
    subgoal for u using D(1) [of u] D(2) [of t u] here a0 by (auto split: if_splits)
    subgoal for u v using D(2) [of u v] D(2) [of u t] D(2) [of t v] D(1) [of u] D(1) [of v] here a0
      by (auto split: if_splits)
    subgoal for u using D(3) [of u] D(3) [of t] here a0 by (auto split: if_splits)
    subgoal for u using D(4) [of u] D(3) [of u] hasPtr_hasEntry [of "line (gos C u)"] here a0
      by (auto split: if_splits)
    subgoal for k a using D(5) [of k a] here a0 by (auto split: if_splits)
    subgoal for k k' a using D(6) [of k k' a] D(5) [of k a] D(5) [of k' a] here a0
      by (auto split: if_splits)
    subgoal for u a using D(7) [of u a] D(7) [of t a] D(8) [of t u] D(8) [of u t]
        D(6) [of "key (gos C u)" "key (gos C t)" a] D(6) [of "key (gos C t)" "key (gos C u)" a]
        D(5) [of "key (gos C u)" a] D(3) [of u] D(4) [of t] holds_hasEntry [of "line (gos C u)"] here a0
      by (auto split: if_splits, blast?)
    subgoal for u v using D(8) [of u v] D(8) [of t v] D(8) [of u t] D(7) [of u] D(7) [of v] D(4) [of t]
        D(3) [of t] D(3) [of u] D(3) [of v] holds_hasEntry [of "line (gos C u)"]
        holds_hasEntry [of "line (gos C v)"] here a0
      by (auto split: if_splits)
    subgoal for k a using others D(9) [of k a] D(6) [of k "key (gos C t)" a] D(6) [of "key (gos C t)" k a]
        D(4) [of t] D(3) [of t] D(5) [of k a] D(8) [of t] here a0
      by (auto split: if_splits, (metis holds.simps)?)
    subgoal using busy D(1) [of t] here a0 by (auto split: if_splits)
    subgoal for u using D(11) [of u] D(11) [of t] D(2) [of t u] D(2) [of u t] D(3) [of u] here a0
      by (auto split: if_splits)
    done
qed

lemma fire_L184:
  assumes "coherent C" and "fire t k C = Returns C'" and "line (gos C t) = L184"
  shows "coherent C'"
proof -
  from assms(2,3) have C': "C' = goto t Idle (C\<lparr>reg := (reg C)\<lparr>reg_mu := False\<rparr>\<rparr>)"
    by (simp add: fire_def Let_def split: if_splits)
  note D = coherentD [OF assms(1)]
  note here = assms(3)
  have busy: "reg_mu (reg C) \<Longrightarrow> inReg (line (gos C t)) \<or> (\<exists>u. u \<noteq> t \<and> inReg (line (gos C u)))"
    using D(10) by (cases "inReg (line (gos C t))") auto
  show ?thesis
    unfolding C' coherent_def goto_def
    apply (intro conjI allI impI)
    subgoal for u using D(1) [of u] D(2) [of t u] here  by (auto split: if_splits)
    subgoal for u v using D(2) [of u v] D(2) [of u t] D(2) [of t v] D(1) [of u] D(1) [of v] here 
      by (auto split: if_splits)
    subgoal for u using D(3) [of u] D(3) [of t] here  by (auto split: if_splits)
    subgoal for u using D(4) [of u] D(3) [of u] hasPtr_hasEntry [of "line (gos C u)"] here 
      by (auto split: if_splits)
    subgoal for k a using D(5) [of k a] here  by (auto split: if_splits)
    subgoal for k k' a using D(6) [of k k' a] D(5) [of k a] D(5) [of k' a] here 
      by (auto split: if_splits)
    subgoal for u a using D(7) [of u a] D(7) [of t a] D(8) [of t u] D(8) [of u t]
        D(6) [of "key (gos C u)" "key (gos C t)" a] D(6) [of "key (gos C t)" "key (gos C u)" a]
        D(5) [of "key (gos C u)" a] D(3) [of u] D(4) [of t] holds_hasEntry [of "line (gos C u)"] here 
      by (auto split: if_splits, blast?)
    subgoal for u v using D(8) [of u v] D(8) [of t v] D(8) [of u t] D(7) [of u] D(7) [of v] D(4) [of t]
        D(3) [of t] D(3) [of u] D(3) [of v] holds_hasEntry [of "line (gos C u)"]
        holds_hasEntry [of "line (gos C v)"] here 
      by (auto split: if_splits)
    subgoal for k a using D(9) [of k a] D(6) [of k "key (gos C t)" a] D(6) [of "key (gos C t)" k a]
        D(4) [of t] D(3) [of t] D(5) [of k a] D(8) [of t] here 
      by (auto split: if_splits, (metis holds.simps)?)
    subgoal using busy D(1) [of t] here  by (auto split: if_splits)
    subgoal for u using D(11) [of u] D(11) [of t] D(2) [of t u] D(2) [of u t] D(3) [of u] here 
      by (auto split: if_splits)
    done
qed

lemma fire_coherent:
  assumes "coherent C" and "fire t k C = Returns C'"
  shows "coherent C'"
proof (cases "line (gos C t)")
  case Idle
  with assms show ?thesis by (rule fire_Idle)
next
  case L171
  with assms show ?thesis by (rule fire_L171)
next
  case L172
  with assms show ?thesis by (rule fire_L172)
next
  case L173
  with assms show ?thesis by (rule fire_L173)
next
  case L175
  with assms show ?thesis by (rule fire_L175)
next
  case L176
  with assms show ?thesis by (rule fire_L176)
next
  case L178
  with assms show ?thesis by (rule fire_L178)
next
  case InBody
  with assms show ?thesis by (rule fire_InBody)
next
  case L182
  with assms show ?thesis by (rule fire_L182)
next
  case L183
  with assms show ?thesis by (rule fire_L183)
next
  case L184
  with assms show ?thesis by (rule fire_L184)
qed

lemma fire_no_panic:
  assumes "coherent C"
  shows "fire t k C \<noteq> Panics"
proof (cases "line (gos C t)")
  case L176
  with coherentD(1) [OF assms, of t] show ?thesis
    by (simp add: fire_def Let_def)
next
  case L178
  with coherentD(3) [OF assms, of t] coherentD(4) [OF assms, of t] show ?thesis
    by (auto simp: fire_def Let_def split: option.splits)
next
  case L183
  with coherentD(3) [OF assms, of t] coherentD(7) [OF assms, of t] show ?thesis
    by (auto simp: fire_def Let_def split: option.splits)
next
  case L184
  with coherentD(1) [OF assms, of t] show ?thesis
    by (simp add: fire_def Let_def)
qed (simp_all add: fire_def Let_def)

lemma interleave_coherent:
  "coherent C \<Longrightarrow> interleave C sched = Returns C' \<Longrightarrow> coherent C'"
proof (induction sched arbitrary: C)
  case Nil
  then show ?case by simp
next
  case (Cons s sched)
  obtain t k where s: "s = (t, k)"
    by (cases s)
  from Cons.prems(2) s obtain C1 where C1: "fire t k C = Returns C1"
    and rest: "interleave C1 sched = Returns C'"
    by (auto split: outcome.splits)
  from Cons.prems(1) C1 have "coherent C1"
    by (rule fire_coherent)
  from this rest show ?case
    by (rule Cons.IH)
qed

lemma interleave_no_panic:
  "coherent C \<Longrightarrow> interleave C sched \<noteq> Panics"
proof (induction sched arbitrary: C)
  case Nil
  then show ?case by simp
next
  case (Cons s sched)
  obtain t k where s: "s = (t, k)"
    by (cases s)
  show ?case
  proof (cases "fire t k C")
    case (Returns C1)
    with Cons.prems have "coherent C1"
      by (rule fire_coherent)
    then have "interleave C1 sched \<noteq> Panics"
      by (rule Cons.IH)
    with Returns s show ?thesis by simp
  next
    case Blocks
    with s show ?thesis by simp
  next
    case Panics
    with fire_no_panic [OF Cons.prems, of t k] show ?thesis by simp
  qed
qed

lemma interleave_append:
  "interleave C (s1 @ s2) =
     (case interleave C s1 of
        Returns C' \<Rightarrow> interleave C' s2
      | Blocks \<Rightarrow> Blocks
      | Panics \<Rightarrow> Panics)"
proof (induction s1 arbitrary: C)
  case Nil
  show ?case by simp
next
  case (Cons s s1)
  obtain t k where s: "s = (t, k)"
    by (cases s)
  show ?case
    by (cases "fire t k C") (simp_all add: s Cons.IH)
qed

lemma interleave_then:
  assumes "interleave C s1 = Returns C1" and "interleave C1 s2 = Returns C2"
  shows "interleave C (s1 @ s2) = Returns C2"
  using assms by (simp add: interleave_append)

lemma interleave_one:
  assumes "fire t k C = Returns C1"
  shows "interleave C [(t, k)] = Returns C1"
  using assms by simp

lemma fire_keeps_locks:
  assumes "coherent C" and "fire t k C = Returns C'" and "reg_locks (reg C) k0 = Some a"
  shows "reg_locks (reg C') k0 = Some a"
proof (cases "line (gos C t) = L173")
  case True
  from coherentD(11) [OF assms(1) True] assms(3) have "k0 \<noteq> key (gos C t)"
    by auto
  with assms(2,3) True show ?thesis
    by (auto simp: fire_def Let_def goto_def)
next
  case False
  with assms(2,3) show ?thesis
    by (cases "line (gos C t)")
       (auto simp: fire_def Let_def goto_def split: if_splits option.splits)
qed

lemma interleave_keeps_locks:
  "coherent C \<Longrightarrow> interleave C sched = Returns C' \<Longrightarrow> reg_locks (reg C) k0 = Some a \<Longrightarrow>
   reg_locks (reg C') k0 = Some a"
proof (induction sched arbitrary: C)
  case Nil
  then show ?case by simp
next
  case (Cons s sched)
  obtain t k where s: "s = (t, k)"
    by (cases s)
  from Cons.prems(2) s obtain C1 where C1: "fire t k C = Returns C1"
    and rest: "interleave C1 sched = Returns C'"
    by (auto split: outcome.splits)
  from Cons.prems(1) C1 have "coherent C1"
    by (rule fire_coherent)
  moreover from Cons.prems(1) C1 Cons.prems(3) have "reg_locks (reg C1) k0 = Some a"
    by (rule fire_keeps_locks)
  ultimately show ?case
    using rest by (intro Cons.IH)
qed

lemma blocked_cases:
  assumes "fire t k C = Blocks"
  shows "line (gos C t) = L171 \<and> reg_mu (reg C) \<or>
         line (gos C t) = L182 \<and> reg_mu (reg C) \<or>
         line (gos C t) = L178 \<and> (\<exists>a. local_mu (gos C t) = Some a \<and> locked (reg C) a)"
  using assms
  by (cases "line (gos C t)")
     (auto simp: fire_def Let_def split: if_splits option.splits)

lemma blocked_by:
  assumes "coherent C" and "fire t k C = Blocks"
  shows "(line (gos C t) = L171 \<or> line (gos C t) = L182) \<and>
           (\<exists>u. u \<noteq> t \<and> inReg (line (gos C u))) \<or>
         line (gos C t) = L178 \<and>
           (\<exists>u. u \<noteq> t \<and> holds (line (gos C u)) \<and> key (gos C u) = key (gos C t))"
proof -
  from blocked_cases [OF assms(2)] consider
      (reg) "line (gos C t) = L171 \<or> line (gos C t) = L182" "reg_mu (reg C)"
    | (repo) a where "line (gos C t) = L178" "local_mu (gos C t) = Some a" "locked (reg C) a"
    by blast
  then show ?thesis
  proof cases
    case reg
    from coherentD(10) [OF assms(1) reg(2)] obtain u where u: "inReg (line (gos C u))" ..
    with reg(1) have "u \<noteq> t"
      by auto
    with u reg(1) show ?thesis
      by blast
  next
    case repo
    from coherentD(4) [OF assms(1), of t] repo have "reg_locks (reg C) (key (gos C t)) = Some a"
      by simp
    from coherentD(9) [OF assms(1) this repo(3)] obtain u
      where u: "holds (line (gos C u))" "key (gos C u) = key (gos C t)"
      by blast
    with repo(1) have "u \<noteq> t"
      by auto
    with u repo(1) show ?thesis
      by blast
  qed
qed

lemma same_instance:
  assumes "coherent C" and "hasPtr (line (gos C t))" and "hasPtr (line (gos C u))"
    and "key (gos C t) = key (gos C u)"
  shows "local_mu (gos C t) = local_mu (gos C u) \<and> local_mu (gos C t) \<noteq> None"
  using coherentD(4) [OF assms(1,2)] coherentD(4) [OF assms(1,3)]
    coherentD(3) [OF assms(1) hasPtr_hasEntry [OF assms(2)]] assms(4)
  by auto

text \<open>Progress: a statement that returns brings its goroutine nearer to the end of its call
  and moves no other goroutine.\<close>

lemma fire_advances:
  assumes "fire t k C = Returns C'" and "line (gos C t) \<noteq> Idle"
  shows "remaining (line (gos C' t)) < remaining (line (gos C t)) \<and>
         (\<forall>w. w \<noteq> t \<longrightarrow> gos C' w = gos C w)"
  using assms
  by (cases "line (gos C t)")
     (auto simp: fire_def Let_def goto_def split: if_splits option.splits)

lemma fire_inReg:
  assumes "coherent C" and "inReg (line (gos C t))"
  shows "\<exists>C'. fire t k C = Returns C' \<and> \<not> holds (line (gos C' t))"
proof -
  from coherentD(1) [OF assms] have mu: "reg_mu (reg C)" .
  show ?thesis
  proof (cases "line (gos C t)")
    case L183
    from coherentD(3) [OF assms(1), of t] L183 obtain a
      where a: "reg_locks (reg C) (key (gos C t)) = Some a"
      by auto
    from coherentD(7) [OF assms(1) _ a] L183 have "locked (reg C) a"
      by simp
    with a L183 show ?thesis
      by (simp add: fire_def Let_def goto_def)
  qed (use assms(2) mu in \<open>simp_all add: fire_def Let_def goto_def\<close>)
qed

lemma fire_unblocked:
  assumes "coherent C" and "fire t k C \<noteq> Blocks"
  shows "\<exists>C'. fire t k C = Returns C'"
  using fire_no_panic [OF assms(1), of t k] assms(2)
  by (cases "fire t k C") simp_all

lemma fire_registry_free:
  assumes "line (gos C t) = L171 \<or> line (gos C t) = L182" and "\<not> reg_mu (reg C)"
  shows "fire t k C \<noteq> Blocks"
  using assms by (auto simp: fire_def Let_def)

lemma fire_mutex_free:
  assumes "line (gos C t) = L178" and "local_mu (gos C t) = Some a" and "\<not> locked (reg C) a"
  shows "fire t k C \<noteq> Blocks"
  using assms by (simp add: fire_def Let_def)

lemma leftAlone_refl: "gos C' w = gos C w \<Longrightarrow> leftAlone C C' w"
  by (simp add: leftAlone_def)

lemma leftAlone_trans:
  "leftAlone C C1 w \<Longrightarrow> leftAlone C1 C2 w \<Longrightarrow> leftAlone C C2 w"
  by (auto simp: leftAlone_def)

lemma leave_registry:
  assumes "coherent C" and "inReg (line (gos C v))"
  shows "\<exists>sched C'. interleave C sched = Returns C' \<and> \<not> reg_mu (reg C') \<and>
           (\<forall>w. w \<noteq> v \<longrightarrow> gos C' w = gos C w) \<and>
           \<not> holds (line (gos C' v))"
  using assms
proof (induction "remaining (line (gos C v))" arbitrary: C rule: less_induct)
  case less
  from fire_inReg [OF less.prems, of "[]"] obtain C1
    where C1: "fire v [] C = Returns C1" and nh: "\<not> holds (line (gos C1 v))"
    by blast
  from less.prems(2) have "line (gos C v) \<noteq> Idle"
    by auto
  from fire_advances [OF C1 this]
  have dec: "remaining (line (gos C1 v)) < remaining (line (gos C v))"
    and same: "\<forall>w. w \<noteq> v \<longrightarrow> gos C1 w = gos C w"
    by blast+
  from less.prems(1) C1 have coh: "coherent C1"
    by (rule fire_coherent)
  show ?case
  proof (cases "inReg (line (gos C1 v))")
    case True
    from less.hyps [OF dec coh True] obtain sched C'
      where run: "interleave C1 sched = Returns C'" and free: "\<not> reg_mu (reg C')"
        and same': "\<forall>w. w \<noteq> v \<longrightarrow> gos C' w = gos C1 w" and nh': "\<not> holds (line (gos C' v))"
      by blast
    from interleave_then [OF interleave_one [OF C1] run]
    have "interleave C ([(v, [])] @ sched) = Returns C'" .
    moreover from same same' have "\<forall>w. w \<noteq> v \<longrightarrow> gos C' w = gos C w"
      by simp
    ultimately show ?thesis
      using free nh' by blast
  next
    case False
    have "\<not> reg_mu (reg C1)"
    proof
      assume "reg_mu (reg C1)"
      from coherentD(10) [OF coh this] obtain u where u: "inReg (line (gos C1 u))" ..
      with False have "u \<noteq> v"
        by auto
      with same u have "inReg (line (gos C u))"
        by simp
      with coherentD(2) [OF less.prems(1), of v u] less.prems(2) \<open>u \<noteq> v\<close> show False
        by auto
    qed
    with interleave_one [OF C1] same nh show ?thesis
      by blast
  qed
qed

text \<open>
  Every call can be run to its end: a goroutine that is stopped at \<open>c.mu.Lock()\<close> waits for
  the one inside the registry section, which leaves it by itself; one that is stopped at
  line 178 waits for the holder of its mutex, which is nearer to its end; and no other
  goroutine has to take a repository mutex on the way.
\<close>

lemma can_finish:
  assumes "coherent C"
  shows "\<exists>sched C'. interleave C sched = Returns C' \<and> line (gos C' t) = Idle \<and>
           (\<forall>w. w \<noteq> t \<longrightarrow> leftAlone C C' w)"
  using assms
proof (induction "remaining (line (gos C t))" arbitrary: C t rule: less_induct)
  case less
  note coh = less.prems
  have go: "\<exists>sched C'. interleave C sched = Returns C' \<and> line (gos C' t) = Idle \<and>
              (\<forall>w. w \<noteq> t \<longrightarrow> leftAlone C C' w)"
    if pre: "interleave C s0 = Returns C1" and t1: "gos C1 t = gos C t"
      and ok: "fire t [] C1 \<noteq> Blocks" and alone: "\<forall>w. w \<noteq> t \<longrightarrow> leftAlone C C1 w"
      and busy: "line (gos C t) \<noteq> Idle"
    for s0 C1
  proof -
    from coh pre have coh1: "coherent C1"
      by (rule interleave_coherent)
    from fire_unblocked [OF coh1 ok] obtain C2 where C2: "fire t [] C1 = Returns C2" ..
    from busy t1 have "line (gos C1 t) \<noteq> Idle"
      by simp
    from fire_advances [OF C2 this] t1
    have dec: "remaining (line (gos C2 t)) < remaining (line (gos C t))"
      and same: "\<forall>w. w \<noteq> t \<longrightarrow> gos C2 w = gos C1 w"
      by simp_all
    from coh1 C2 have coh2: "coherent C2"
      by (rule fire_coherent)
    from less.hyps [OF dec coh2] obtain s3 C3
      where run: "interleave C2 s3 = Returns C3" and idle: "line (gos C3 t) = Idle"
        and alone3: "\<forall>w. w \<noteq> t \<longrightarrow> leftAlone C2 C3 w"
      by blast
    from interleave_then [OF interleave_then [OF pre interleave_one [OF C2]] run]
    have "interleave C ((s0 @ [(t, [])]) @ s3) = Returns C3" .
    moreover have "\<forall>w. w \<noteq> t \<longrightarrow> leftAlone C C3 w"
    proof (intro allI impI)
      fix w
      assume w: "w \<noteq> t"
      with alone have "leftAlone C C1 w"
        by simp
      moreover from w same have "leftAlone C1 C2 w"
        by (simp add: leftAlone_refl)
      moreover from w alone3 have "leftAlone C2 C3 w"
        by simp
      ultimately show "leftAlone C C3 w"
        by (blast intro: leftAlone_trans)
    qed
    ultimately show ?thesis
      using idle by blast
  qed
  show ?case
  proof (cases "line (gos C t) = Idle")
    case True
    have "interleave C [] = Returns C"
      by simp
    with True show ?thesis
      by (blast intro: leftAlone_refl)
  next
    case busy: False
    show ?thesis
    proof (cases "fire t [] C = Blocks")
      case False
      have "interleave C [] = Returns C"
        by simp
      from this _ False _ busy show ?thesis
        by (rule go) (simp_all add: leftAlone_refl)
    next
      case True
      from blocked_by [OF coh True] consider
          (reg) u where "line (gos C t) = L171 \<or> line (gos C t) = L182"
            "u \<noteq> t" "inReg (line (gos C u))"
        | (repo) u where "line (gos C t) = L178" "u \<noteq> t" "holds (line (gos C u))"
            "key (gos C u) = key (gos C t)"
        by blast
      then show ?thesis
      proof cases
        case reg
        from leave_registry [OF coh reg(3)] obtain s0 C1
          where run: "interleave C s0 = Returns C1" and free: "\<not> reg_mu (reg C1)"
            and same: "\<forall>w. w \<noteq> u \<longrightarrow> gos C1 w = gos C w" and nh: "\<not> holds (line (gos C1 u))"
          by blast
        from same reg(2) have t1: "gos C1 t = gos C t"
          by simp
        with reg(1) have "line (gos C1 t) = L171 \<or> line (gos C1 t) = L182"
          by simp
        from fire_registry_free [OF this free] have ok: "fire t [] C1 \<noteq> Blocks" .
        have alone: "\<forall>w. w \<noteq> t \<longrightarrow> leftAlone C C1 w"
        proof (intro allI impI)
          fix w
          assume "w \<noteq> t"
          show "leftAlone C C1 w"
          proof (cases "w = u")
            case True
            with nh reg(3) show ?thesis
              by (auto simp: leftAlone_def)
          next
            case False
            with same show ?thesis
              by (simp add: leftAlone_refl)
          qed
        qed
        from run t1 ok alone busy show ?thesis
          by (rule go)
      next
        case repo
        from repo(1,3) have "remaining (line (gos C u)) < remaining (line (gos C t))"
          by (cases "line (gos C u)") simp_all
        from less.hyps [OF this coh] obtain s0 C1
          where run: "interleave C s0 = Returns C1" and idle: "line (gos C1 u) = Idle"
            and alone0: "\<forall>w. w \<noteq> u \<longrightarrow> leftAlone C C1 w"
          by blast
        from coh run have coh1: "coherent C1"
          by (rule interleave_coherent)
        from alone0 repo(1,2) have t1: "gos C1 t = gos C t"
          by (auto simp: leftAlone_def)
        from coherentD(3) [OF coh1, of t] t1 repo(1) obtain a
          where a: "reg_locks (reg C1) (key (gos C1 t)) = Some a"
          by auto
        from coherentD(4) [OF coh1, of t] t1 repo(1) a have mu: "local_mu (gos C1 t) = Some a"
          by simp
        have free: "\<not> locked (reg C1) a"
        proof
          assume "locked (reg C1) a"
          from coherentD(9) [OF coh1 a this] obtain w
            where w: "holds (line (gos C1 w))" "key (gos C1 w) = key (gos C1 t)"
            by blast
          from w(1) idle have "w \<noteq> u"
            by auto
          with alone0 w(1) have same: "gos C1 w = gos C w"
            by (auto simp: leftAlone_def)
          with w t1 repo(4) have "holds (line (gos C w))" "key (gos C u) = key (gos C w)"
            by simp_all
          with coherentD(8) [OF coh, of u w] repo(3) \<open>w \<noteq> u\<close> show False
            by auto
        qed
        from t1 repo(1) have "line (gos C1 t) = L178"
          by simp
        from fire_mutex_free [OF this mu free] have ok: "fire t [] C1 \<noteq> Blocks" .
        have alone: "\<forall>w. w \<noteq> t \<longrightarrow> leftAlone C C1 w"
        proof (intro allI impI)
          fix w
          assume "w \<noteq> t"
          show "leftAlone C C1 w"
          proof (cases "w = u")
            case True
            with idle repo(3) show ?thesis
              by (auto simp: leftAlone_def)
          next
            case False
            with alone0 show ?thesis
              by simp
          qed
        qed
        from run t1 ok alone busy show ?thesis
          by (rule go)
      qed
    qed
  qed
qed

text \<open>
  The test of line 172 and the store of line 173 are two steps, and what keeps two
  goroutines from both storing a mutex for one name is \<open>c.mu\<close> alone: from \<open>racy\<close>, where
  two goroutines are inside the registry section, each stores a mutex of its own and
  reads it back, and the two hold different mutexes for the same name.
\<close>

lemma racy_not_coherent: "\<not> coherent racy"
  by (auto simp: coherent_def racy_def initial_def)

lemma two_stores_two_mutexes:
  "\<exists>C. interleave racy stores = Returns C \<and>
       hasPtr (line (gos C 0)) \<and> hasPtr (line (gos C 1)) \<and> key (gos C 0) = key (gos C 1) \<and>
       local_mu (gos C 0) = Some 0 \<and> local_mu (gos C 1) = Some 1"
  by (simp add: racy_def stores_def initial_def fire_def goto_def Let_def numeral_eq_Suc)

text \<open>
  C9. In every configuration that the goroutines of one client reach from the initial one,
  under any schedule: two goroutines between their \<open>mu.Lock()\<close> of line 178 and their
  \<open>Unlock()\<close> of line 183, that is, around the whole body of \<open>Clone\<close>, have different
  repository names, and each of them has its repository's mutex locked; a goroutine
  that cannot move is either at a \<open>c.mu.Lock()\<close>, while another one is between the
  \<open>c.mu.Lock()\<close> and the \<open>c.mu.Unlock()\<close> of \<open>lockRepo\<close> or \<open>unlockRepo\<close>, or at line 178
  while another one holds the mutex of the same name, so a call for another name never
  stops it there; two goroutines that have read \<open>c.repoLocks[repoFullName]\<close> for the same
  name have read the same mutex, and different names have different mutexes; an entry
  of the registry is the same after every further run; no run panics; a goroutine
  between \<open>c.mu.Lock()\<close> and \<open>c.mu.Unlock()\<close> is never stopped; and for every goroutine
  there is a further run that brings it to the end of its call, so every mutex that is
  locked can be unlocked and every goroutine that waits can get in.
\<close>

theorem one_sequence_per_repository:
  assumes "interleave initial sched = Returns C"
  shows "(\<forall>t u. t \<noteq> u \<longrightarrow> holds (line (gos C t)) \<longrightarrow> holds (line (gos C u)) \<longrightarrow>
            key (gos C t) \<noteq> key (gos C u)) \<and>
         (\<forall>t. holds (line (gos C t)) \<longrightarrow>
            (\<exists>a. reg_locks (reg C) (key (gos C t)) = Some a \<and> locked (reg C) a)) \<and>
         (\<forall>t k. fire t k C = Blocks \<longrightarrow>
            (line (gos C t) = L171 \<or> line (gos C t) = L182) \<and>
              (\<exists>u. u \<noteq> t \<and> inReg (line (gos C u))) \<or>
            line (gos C t) = L178 \<and>
              (\<exists>u. u \<noteq> t \<and> holds (line (gos C u)) \<and> key (gos C u) = key (gos C t))) \<and>
         (\<forall>t u. hasPtr (line (gos C t)) \<longrightarrow> hasPtr (line (gos C u)) \<longrightarrow>
            key (gos C t) = key (gos C u) \<longrightarrow>
            local_mu (gos C t) = local_mu (gos C u) \<and> local_mu (gos C t) \<noteq> None) \<and>
         (\<forall>k k' a. k \<noteq> k' \<longrightarrow> reg_locks (reg C) k = Some a \<longrightarrow> reg_locks (reg C) k' \<noteq> Some a) \<and>
         (\<forall>k a more C'. reg_locks (reg C) k = Some a \<longrightarrow> interleave C more = Returns C' \<longrightarrow>
            reg_locks (reg C') k = Some a) \<and>
         (\<forall>more. interleave C more \<noteq> Panics) \<and>
         (\<forall>t k. inReg (line (gos C t)) \<longrightarrow> (\<exists>C'. fire t k C = Returns C')) \<and>
         (\<forall>t. \<exists>more C'. interleave C more = Returns C' \<and> line (gos C' t) = Idle)"
proof -
  from coherent_initial assms have C: "coherent C"
    by (rule interleave_coherent)
  have excl: "\<forall>t u. t \<noteq> u \<longrightarrow> holds (line (gos C t)) \<longrightarrow> holds (line (gos C u)) \<longrightarrow>
      key (gos C t) \<noteq> key (gos C u)"
    using coherentD(8) [OF C] by blast
  have held: "\<forall>t. holds (line (gos C t)) \<longrightarrow>
      (\<exists>a. reg_locks (reg C) (key (gos C t)) = Some a \<and> locked (reg C) a)"
  proof (intro allI impI)
    fix t
    assume h: "holds (line (gos C t))"
    from coherentD(3) [OF C holds_hasEntry [OF h]] obtain a
      where a: "reg_locks (reg C) (key (gos C t)) = Some a" ..
    from coherentD(7) [OF C h a] a
    show "\<exists>a. reg_locks (reg C) (key (gos C t)) = Some a \<and> locked (reg C) a"
      by blast
  qed
  have blocked: "\<forall>t k. fire t k C = Blocks \<longrightarrow>
      (line (gos C t) = L171 \<or> line (gos C t) = L182) \<and>
        (\<exists>u. u \<noteq> t \<and> inReg (line (gos C u))) \<or>
      line (gos C t) = L178 \<and>
        (\<exists>u. u \<noteq> t \<and> holds (line (gos C u)) \<and> key (gos C u) = key (gos C t))"
    using blocked_by [OF C] by blast
  have same: "\<forall>t u. hasPtr (line (gos C t)) \<longrightarrow> hasPtr (line (gos C u)) \<longrightarrow>
      key (gos C t) = key (gos C u) \<longrightarrow>
      local_mu (gos C t) = local_mu (gos C u) \<and> local_mu (gos C t) \<noteq> None"
    using same_instance [OF C] by blast
  have apart: "\<forall>k k' a. k \<noteq> k' \<longrightarrow> reg_locks (reg C) k = Some a \<longrightarrow>
      reg_locks (reg C) k' \<noteq> Some a"
    using coherentD(6) [OF C] by blast
  have kept: "\<forall>k a more C'. reg_locks (reg C) k = Some a \<longrightarrow>
      interleave C more = Returns C' \<longrightarrow> reg_locks (reg C') k = Some a"
    using interleave_keeps_locks [OF C] by blast
  have safe: "\<forall>more. interleave C more \<noteq> Panics"
    using interleave_no_panic [OF C] by blast
  have through: "\<forall>t k. inReg (line (gos C t)) \<longrightarrow> (\<exists>C'. fire t k C = Returns C')"
    using fire_inReg [OF C] by blast
  have ends: "\<forall>t. \<exists>more C'. interleave C more = Returns C' \<and> line (gos C' t) = Idle"
    using can_finish [OF C] by blast
  from excl held blocked same apart kept safe through ends show ?thesis
    by (intro conjI)
qed

text \<open>
  On the schedule \<open>demo\<close>: goroutines 0 and 2 are both in the body, for \<open>org/a\<close> and \<open>org/b\<close>;
  goroutine 1 is stopped at line 178 behind goroutine 0, and can still reach the end of
  its call; goroutine 5 is stopped at line 171 behind goroutine 4, which is inside the
  registry section and can move; goroutines 1 and 3 have read the same mutex; and the
  entry of \<open>org/a\<close> is still there when goroutine 0 has unlocked.
\<close>

lemma interleave_demo:
  "\<exists>C. interleave initial demo = Returns C \<and>
       line (gos C 0) = InBody \<and> key (gos C 0) = ''org/a'' \<and>
       line (gos C 1) = L178 \<and> key (gos C 1) = ''org/a'' \<and>
       line (gos C 3) = L178 \<and> key (gos C 3) = ''org/a'' \<and>
       line (gos C 2) = InBody \<and> key (gos C 2) = ''org/b'' \<and>
       line (gos C 5) = L171 \<and> line (gos C 4) = L172 \<and>
       reg_locks (reg C) ''org/a'' = Some 0 \<and> reg_locks (reg C) ''org/b'' = Some 1 \<and>
       fire 1 [] C = Blocks \<and> fire 5 [] C = Blocks"
  by (simp add: demo_def initial_def fire_def goto_def Let_def numeral_eq_Suc)

lemma interleave_demo_release:
  "\<exists>C'. interleave initial (demo @ release) = Returns C' \<and>
       line (gos C' 0) = Idle \<and> line (gos C' 4) = L178"
  by (simp add: demo_def release_def initial_def fire_def goto_def Let_def numeral_eq_Suc)

theorem one_sequence_per_repository_witness:
  "\<exists>C. interleave initial demo = Returns C \<and>
       holds (line (gos C 0)) \<and> holds (line (gos C 2)) \<and> key (gos C 0) \<noteq> key (gos C 2) \<and>
       (\<exists>a. reg_locks (reg C) (key (gos C 0)) = Some a \<and> locked (reg C) a) \<and>
       fire 1 [] C = Blocks \<and> line (gos C 1) = L178 \<and>
       (\<exists>u. u \<noteq> 1 \<and> holds (line (gos C u)) \<and> key (gos C u) = key (gos C 1)) \<and>
       fire 5 [] C = Blocks \<and> line (gos C 5) = L171 \<and>
       (\<exists>u. u \<noteq> 5 \<and> inReg (line (gos C u))) \<and>
       hasPtr (line (gos C 1)) \<and> hasPtr (line (gos C 3)) \<and> key (gos C 1) = key (gos C 3) \<and>
       local_mu (gos C 1) = local_mu (gos C 3) \<and> local_mu (gos C 1) \<noteq> None \<and>
       reg_locks (reg C) ''org/a'' = Some 0 \<and> reg_locks (reg C) ''org/b'' \<noteq> Some 0 \<and>
       (\<exists>C'. interleave C release = Returns C' \<and> reg_locks (reg C') ''org/a'' = Some 0) \<and>
       interleave C release \<noteq> Panics \<and>
       inReg (line (gos C 4)) \<and> (\<exists>C'. fire 4 [] C = Returns C') \<and>
       (\<exists>more C'. interleave C more = Returns C' \<and> line (gos C' 1) = Idle)"
proof -
  from interleave_demo obtain C where C: "interleave initial demo = Returns C"
    and l0: "line (gos C 0) = InBody" and k0: "key (gos C 0) = ''org/a''"
    and l1: "line (gos C 1) = L178" and k1: "key (gos C 1) = ''org/a''"
    and l3: "line (gos C 3) = L178" and k3: "key (gos C 3) = ''org/a''"
    and l2: "line (gos C 2) = InBody" and k2: "key (gos C 2) = ''org/b''"
    and l5: "line (gos C 5) = L171" and l4: "line (gos C 4) = L172"
    and a: "reg_locks (reg C) ''org/a'' = Some 0"
    and b: "reg_locks (reg C) ''org/b'' = Some 1"
    and blocks: "fire 1 [] C = Blocks" and blocks5: "fire 5 [] C = Blocks"
    by (elim exE conjE) (rule that; assumption)
  from interleave_demo_release obtain C'
    where "interleave initial (demo @ release) = Returns C'"
    by (elim exE conjE) (rule that; assumption)
  with C have C': "interleave C release = Returns C'"
    by (simp add: interleave_append)
  note T = one_sequence_per_repository [OF C]
  from T have excl: "\<forall>t u. t \<noteq> u \<longrightarrow> holds (line (gos C t)) \<longrightarrow> holds (line (gos C u)) \<longrightarrow>
      key (gos C t) \<noteq> key (gos C u)"
    by (rule conjunct1)
  note T = conjunct2 [OF T]
  from T have held: "\<forall>t. holds (line (gos C t)) \<longrightarrow>
      (\<exists>a. reg_locks (reg C) (key (gos C t)) = Some a \<and> locked (reg C) a)"
    by (rule conjunct1)
  note T = conjunct2 [OF T]
  from T have blocked: "\<forall>t k. fire t k C = Blocks \<longrightarrow>
      (line (gos C t) = L171 \<or> line (gos C t) = L182) \<and>
        (\<exists>u. u \<noteq> t \<and> inReg (line (gos C u))) \<or>
      line (gos C t) = L178 \<and>
        (\<exists>u. u \<noteq> t \<and> holds (line (gos C u)) \<and> key (gos C u) = key (gos C t))"
    by (rule conjunct1)
  note T = conjunct2 [OF T]
  from T have same: "\<forall>t u. hasPtr (line (gos C t)) \<longrightarrow> hasPtr (line (gos C u)) \<longrightarrow>
      key (gos C t) = key (gos C u) \<longrightarrow>
      local_mu (gos C t) = local_mu (gos C u) \<and> local_mu (gos C t) \<noteq> None"
    by (rule conjunct1)
  note T = conjunct2 [OF T]
  from T have apart: "\<forall>k k' a. k \<noteq> k' \<longrightarrow> reg_locks (reg C) k = Some a \<longrightarrow>
      reg_locks (reg C) k' \<noteq> Some a"
    by (rule conjunct1)
  note T = conjunct2 [OF T]
  from T have kept: "\<forall>k a more C'. reg_locks (reg C) k = Some a \<longrightarrow>
      interleave C more = Returns C' \<longrightarrow> reg_locks (reg C') k = Some a"
    by (rule conjunct1)
  note T = conjunct2 [OF T]
  from T have safe: "\<forall>more. interleave C more \<noteq> Panics"
    by (rule conjunct1)
  note T = conjunct2 [OF T]
  from T have through: "\<forall>t k. inReg (line (gos C t)) \<longrightarrow> (\<exists>C'. fire t k C = Returns C')"
    by (rule conjunct1)
  from T have ends: "\<forall>t. \<exists>more C'. interleave C more = Returns C' \<and> line (gos C' t) = Idle"
    by (rule conjunct2)
  have h0: "holds (line (gos C 0))" and h2: "holds (line (gos C 2))"
    and p1: "hasPtr (line (gos C 1))" and p3: "hasPtr (line (gos C 3))"
    and r4: "inReg (line (gos C 4))"
    by (simp_all only: l0 l2 l1 l3 l4 holds.simps hasPtr.simps inReg.simps)
  have "(0::nat) \<noteq> 2"
    by simp
  from excl [rule_format, OF this h0 h2] have 1: "key (gos C 0) \<noteq> key (gos C 2)" .
  from held [rule_format, OF h0]
  have 2: "\<exists>a. reg_locks (reg C) (key (gos C 0)) = Some a \<and> locked (reg C) a" .
  from blocked [rule_format, OF blocks] l1
  have "line (gos C 1) = L178 \<and>
      (\<exists>u. u \<noteq> 1 \<and> holds (line (gos C u)) \<and> key (gos C u) = key (gos C 1))"
    by (simp only: pc.distinct simp_thms)
  then have 3: "\<exists>u. u \<noteq> 1 \<and> holds (line (gos C u)) \<and> key (gos C u) = key (gos C 1)"
    by (rule conjunct2)
  from blocked [rule_format, OF blocks5] l5
  have "(L171 = L171 \<or> L171 = L182) \<and> (\<exists>u. u \<noteq> 5 \<and> inReg (line (gos C u)))"
    by (simp only: pc.distinct simp_thms)
  then have 9: "\<exists>u. u \<noteq> 5 \<and> inReg (line (gos C u))"
    by (rule conjunct2)
  from k1 k3 have k13: "key (gos C 1) = key (gos C 3)"
    by simp
  from same [rule_format, OF p1 p3 k13]
  have 4: "local_mu (gos C 1) = local_mu (gos C 3) \<and> local_mu (gos C 1) \<noteq> None" .
  have "''org/a'' \<noteq> ''org/b''"
    by simp
  from apart [rule_format, OF this a]
  have 5: "reg_locks (reg C) ''org/b'' \<noteq> Some 0" .
  from kept [rule_format, OF a C'] have 6: "reg_locks (reg C') ''org/a'' = Some 0" .
  from safe [rule_format] have 7: "interleave C release \<noteq> Panics" .
  from 4 have 41: "local_mu (gos C 1) = local_mu (gos C 3)" and 42: "local_mu (gos C 1) \<noteq> None"
    by (rule conjunct1, rule conjunct2)
  from C' 6 have 8: "\<exists>C'. interleave C release = Returns C' \<and> reg_locks (reg C') ''org/a'' = Some 0"
    by (intro exI [of _ C'] conjI)
  from through [rule_format, OF r4] have 10: "\<exists>C'. fire 4 [] C = Returns C'" .
  from ends [rule_format]
  have 11: "\<exists>more C'. interleave C more = Returns C' \<and> line (gos C' 1) = Idle" .
  from C h0 h2 1 2 blocks l1 3 blocks5 l5 9 p1 p3 k13 41 42 a 5 8 7 r4 10 11
  have all: "interleave initial demo = Returns C \<and>
       holds (line (gos C 0)) \<and> holds (line (gos C 2)) \<and> key (gos C 0) \<noteq> key (gos C 2) \<and>
       (\<exists>a. reg_locks (reg C) (key (gos C 0)) = Some a \<and> locked (reg C) a) \<and>
       fire 1 [] C = Blocks \<and> line (gos C 1) = L178 \<and>
       (\<exists>u. u \<noteq> 1 \<and> holds (line (gos C u)) \<and> key (gos C u) = key (gos C 1)) \<and>
       fire 5 [] C = Blocks \<and> line (gos C 5) = L171 \<and>
       (\<exists>u. u \<noteq> 5 \<and> inReg (line (gos C u))) \<and>
       hasPtr (line (gos C 1)) \<and> hasPtr (line (gos C 3)) \<and> key (gos C 1) = key (gos C 3) \<and>
       local_mu (gos C 1) = local_mu (gos C 3) \<and> local_mu (gos C 1) \<noteq> None \<and>
       reg_locks (reg C) ''org/a'' = Some 0 \<and> reg_locks (reg C) ''org/b'' \<noteq> Some 0 \<and>
       (\<exists>C'. interleave C release = Returns C' \<and> reg_locks (reg C') ''org/a'' = Some 0) \<and>
       interleave C release \<noteq> Panics \<and>
       inReg (line (gos C 4)) \<and> (\<exists>C'. fire 4 [] C = Returns C') \<and>
       (\<exists>more C'. interleave C more = Returns C' \<and> line (gos C' 1) = Idle)"
    by (intro conjI)
  show ?thesis
    by (rule exI) (rule all)
qed

end
